theory Spec2Isabelle
  imports Main "HOL-Library.Sublist" "HOL-Library.Char_ord" "HOL-Library.List_Lexorder"
begin

section \<open>Go library functions used by the program\<close>

text \<open>
  Go strings are byte sequences; they are modelled as \<^typ>\<open>string\<close>, one \<^typ>\<open>char\<close>
  per byte. The functions of this section belong to Go's standard library
  (\<^verbatim>\<open>strings\<close>, \<^verbatim>\<open>fmt\<close>, \<^verbatim>\<open>path/filepath\<close>, \<^verbatim>\<open>os\<close>); they are written
  after their documentation, for a Unix host (separator \<^verbatim>\<open>/\<close>, no volume names).
\<close>

subsection \<open>Package strings\<close>

text \<open>\<^verbatim>\<open>strings.Contains(s, substr)\<close>: \<^verbatim>\<open>substr\<close> occurs in \<^verbatim>\<open>s\<close>.\<close>

fun Contains :: "string \<Rightarrow> string \<Rightarrow> bool" where
  "Contains [] substr = (substr = [])"
| "Contains (c # cs) substr = (prefix substr (c # cs) \<or> Contains cs substr)"

text \<open>
  \<^verbatim>\<open>strings.ReplaceAll(s, old, new)\<close> for a non-empty \<^verbatim>\<open>old\<close>: the non-overlapping
  occurrences of \<^verbatim>\<open>old\<close>, found from the left, are replaced by \<^verbatim>\<open>new\<close>. (With an
  empty \<^verbatim>\<open>old\<close> Go inserts \<^verbatim>\<open>new\<close> around every rune; the program never does
  that, and the model returns \<^verbatim>\<open>s\<close> there.)
\<close>

function ReplaceAll :: "string \<Rightarrow> string \<Rightarrow> string \<Rightarrow> string" where
  "ReplaceAll [] old new = []"
| "ReplaceAll (c # cs) old new =
     (if old \<noteq> [] \<and> prefix old (c # cs)
      then new @ ReplaceAll (drop (length old) (c # cs)) old new
      else c # ReplaceAll cs old new)"
  by pat_completeness auto
termination
  by (relation "measure (\<lambda>(s, old, new). length s)") (auto simp: neq_Nil_conv)

text \<open>\<^verbatim>\<open>strings.Join(elems, sep)\<close>.\<close>

fun strings_Join :: "string list \<Rightarrow> string \<Rightarrow> string" where
  "strings_Join [] sep = []"
| "strings_Join [x] sep = x"
| "strings_Join (x # y # ys) sep = x @ sep @ strings_Join (y # ys) sep"



text \<open>\<^verbatim>\<open>strings.TrimSpace\<close> on bytes: the ASCII white space is trimmed at both ends.\<close>

definition is_space :: "char \<Rightarrow> bool" where
  "is_space c = (c \<in> set [CHR 0x09, CHR 0x0A, CHR 0x0B, CHR 0x0C, CHR 0x0D, CHR '' ''])"

definition TrimSpace :: "string \<Rightarrow> string" where
  "TrimSpace s = rev (dropWhile is_space (rev (dropWhile is_space s)))"

text \<open>\<^verbatim>\<open>strings.TrimPrefix(s, p)\<close>.\<close>

definition TrimPrefix :: "string \<Rightarrow> string \<Rightarrow> string" where
  "TrimPrefix s p = (if prefix p s then drop (length p) s else s)"

subsection \<open>Package fmt\<close>

text \<open>The verb \<^verbatim>\<open>%d\<close>: a decimal numeral.\<close>

fun digits :: "nat \<Rightarrow> string" where
  "digits n =
     (if n < 10 then [char_of (48 + n)]
      else digits (n div 10) @ [char_of (48 + n mod 10)])"

declare digits.simps [simp del]

definition itoa :: "int \<Rightarrow> string" where
  "itoa i = (if i < 0 then CHR ''-'' # digits (nat (- i)) else digits (nat i))"

text \<open>
  The verb \<^verbatim>\<open>%q\<close> on a string: the string in double quotes, with Go's escapes for
  the quote, the backslash and the ASCII control bytes. (Bytes from 0x80 on are kept,
  as Go does for printable UTF-8.)
\<close>

definition hex_digit :: "nat \<Rightarrow> char" where
  "hex_digit d = (if d < 10 then char_of (48 + d) else char_of (87 + d))"

definition quote_char :: "char \<Rightarrow> string" where
  "quote_char c =
     (if c = CHR 0x22 then [CHR 0x5C, CHR 0x22]
      else if c = CHR 0x5C then [CHR 0x5C, CHR 0x5C]
      else if c = CHR 0x07 then [CHR 0x5C, CHR ''a'']
      else if c = CHR 0x08 then [CHR 0x5C, CHR ''b'']
      else if c = CHR 0x0C then [CHR 0x5C, CHR ''f'']
      else if c = CHR 0x0A then [CHR 0x5C, CHR ''n'']
      else if c = CHR 0x0D then [CHR 0x5C, CHR ''r'']
      else if c = CHR 0x09 then [CHR 0x5C, CHR ''t'']
      else if c = CHR 0x0B then [CHR 0x5C, CHR ''v'']
      else if (of_char c :: nat) < 32 \<or> c = CHR 0x7F
        then [CHR 0x5C, CHR ''x'', hex_digit (of_char c div 16), hex_digit (of_char c mod 16)]
      else [c])"

definition Quote :: "string \<Rightarrow> string" where
  "Quote s = CHR 0x22 # concat (map quote_char s) @ [CHR 0x22]"

subsection \<open>Package path/filepath\<close>

text \<open>The elements of a path: the pieces between separators.\<close>

fun split_sep :: "string \<Rightarrow> string list" where
  "split_sep [] = [[]]"
| "split_sep (c # cs) =
     (if c = CHR ''/'' then [] # split_sep cs
      else (case split_sep cs of [] \<Rightarrow> [[c]] | x # xs \<Rightarrow> (c # x) # xs))"

text \<open>
  \<^verbatim>\<open>filepath.Clean\<close>, by its documented rules: separators are merged, every
  \<^verbatim>\<open>.\<close> element goes, every inner \<^verbatim>\<open>..\<close> goes with the element before it, a
  \<^verbatim>\<open>..\<close> that begins a rooted path goes; the empty result is \<^verbatim>\<open>.\<close>. The
  elements kept so far are a stack, last element first.
\<close>

definition clean_step :: "bool \<Rightarrow> string list \<Rightarrow> string \<Rightarrow> string list" where
  "clean_step rooted st c =
     (if c = [] \<or> c = ''.'' then st
      else if c = ''..'' then
        (case st of
           [] \<Rightarrow> if rooted then [] else [''..'']
         | t # ts \<Rightarrow> if t = ''..'' then ''..'' # st else ts)
      else c # st)"

definition Clean :: "string \<Rightarrow> string" where
  "Clean p =
     (if p = [] then ''.''
      else
        let rooted = (hd p = CHR ''/'');
            st = foldl (clean_step rooted) [] (split_sep p);
            body = strings_Join (rev st) ''/''
        in if rooted then CHR ''/'' # body
           else if body = [] then ''.'' else body)"

text \<open>
  \<^verbatim>\<open>filepath.Join(elem...)\<close>: the elements from the first non-empty one on are
  joined with separators and cleaned; the result is empty when all are empty.
\<close>

fun Join :: "string list \<Rightarrow> string" where
  "Join [] = []"
| "Join (e # es) = (if e \<noteq> [] then Clean (strings_Join (e # es) ''/'') else Join es)"

text \<open>
  \<^verbatim>\<open>filepath.Base\<close>: the last element, trailing separators dropped first;
  \<^verbatim>\<open>.\<close> for the empty path, \<^verbatim>\<open>/\<close> for a path of separators only.
\<close>

definition Base :: "string \<Rightarrow> string" where
  "Base p =
     (if p = [] then ''.''
      else
        let q = dropWhile (\<lambda>c. c = CHR ''/'') (rev p);
            e = rev (takeWhile (\<lambda>c. c \<noteq> CHR ''/'') q)
        in if e = [] then ''/'' else e)"

text \<open>
  \<^verbatim>\<open>filepath.Ext\<close>: the suffix of the last element that starts at its last dot,
  empty when it has no dot.
\<close>

definition Ext :: "string \<Rightarrow> string" where
  "Ext p =
     (let e = takeWhile (\<lambda>c. c \<noteq> CHR ''/'') (rev p)
      in if CHR ''.'' \<in> set e
         then CHR ''.'' # rev (takeWhile (\<lambda>c. c \<noteq> CHR ''.'') e)
         else [])"

text \<open>\<^verbatim>\<open>filepath.Split\<close>: the path is cut after its last separator.\<close>

definition Split :: "string \<Rightarrow> string \<times> string" where
  "Split p =
     (rev (dropWhile (\<lambda>c. c \<noteq> CHR ''/'') (rev p)),
      rev (takeWhile (\<lambda>c. c \<noteq> CHR ''/'') (rev p)))"

text \<open>\<^verbatim>\<open>filepath.Dir\<close>: all but the last element, cleaned.\<close>

definition Dir :: "string \<Rightarrow> string" where
  "Dir p = Clean (fst (Split p))"

text \<open>
  \<^verbatim>\<open>filepath.Match\<close>. A pattern is a sequence of terms: \<^verbatim>\<open>*\<close> (any run of
  non-separator characters), \<^verbatim>\<open>?\<close> (one non-separator character), a character class
  \<^verbatim>\<open>[...]\<close> or \<^verbatim>\<open>[^...]\<close> of single characters and ranges \<^verbatim>\<open>lo-hi\<close>, a
  backslash followed by the character it stands for, or a plain character. A malformed
  pattern is \<^verbatim>\<open>ErrBadPattern\<close>, whatever the name. Patterns and names are read
  bytewise (one rune per byte), which is Go's reading of ASCII.
\<close>

datatype glob_token = Star | AnyChar | Class bool "(char \<times> char) list" | Lit char

datatype glob_error = ErrBadPattern

text \<open>One possibly escaped character inside a class; the class may not end there.\<close>

fun getEsc :: "string \<Rightarrow> (char \<times> string) option" where
  "getEsc [] = None"
| "getEsc (c # r) =
     (if c = CHR ''-'' \<or> c = CHR '']'' then None
      else if c = CHR 0x5C then
        (case r of [] \<Rightarrow> None | d # r' \<Rightarrow> if r' = [] then None else Some (d, r'))
      else if r = [] then None else Some (c, r))"

lemma getEsc_shorter: "getEsc chunk = Some (c, r) \<Longrightarrow> length r < length chunk"
  by (cases chunk) (auto split: if_splits list.splits)

text \<open>
  The ranges of a class up to its closing bracket, with the rest of the pattern. The
  flag says that a range has been read: a class is not empty.
\<close>

function parse_ranges :: "bool \<Rightarrow> string \<Rightarrow> ((char \<times> char) list \<times> string) option" where
  "parse_ranges started chunk =
     (if started \<and> chunk \<noteq> [] \<and> hd chunk = CHR '']'' then Some ([], tl chunk)
      else case getEsc chunk of
        None \<Rightarrow> None
      | Some (lo, c1) \<Rightarrow>
          if c1 \<noteq> [] \<and> hd c1 = CHR ''-'' then
            (case getEsc (tl c1) of
               None \<Rightarrow> None
             | Some (hi, c2) \<Rightarrow>
                 (case parse_ranges True c2 of
                    None \<Rightarrow> None
                  | Some (rs, rest) \<Rightarrow> Some ((lo, hi) # rs, rest)))
          else
            (case parse_ranges True c1 of
               None \<Rightarrow> None
             | Some (rs, rest) \<Rightarrow> Some ((lo, lo) # rs, rest)))"
  by pat_completeness auto
termination
proof (relation "measure (\<lambda>(started, chunk). length chunk)", goal_cases)
  case 1
  show ?case by simp
next
  case (2 started chunk x2 lo c1 x2a hi c2)
  then have "length c1 < length chunk" and "length c2 < length (tl c1)"
    by (auto dest: getEsc_shorter)
  then show ?case by simp
next
  case (3 started chunk x2 lo c1)
  then show ?case by (auto dest: getEsc_shorter)
qed

declare parse_ranges.simps [simp del]

lemma parse_ranges_shorter:
  "parse_ranges started chunk = Some (rs, rest) \<Longrightarrow> length rest < length chunk"
proof (induction started chunk arbitrary: rs rest rule: parse_ranges.induct)
  case (1 started chunk)
  note eq = "1.prems" [unfolded parse_ranges.simps [of started chunk]]
  show ?case
  proof (cases "started \<and> chunk \<noteq> [] \<and> hd chunk = CHR '']''")
    case True
    with eq show ?thesis by (cases chunk) auto
  next
    case False
    with eq obtain lo c1 where e1: "getEsc chunk = Some (lo, c1)"
      by (auto split: option.splits)
    note l1 = getEsc_shorter [OF e1]
    show ?thesis
    proof (cases "c1 \<noteq> [] \<and> hd c1 = CHR ''-''")
      case True
      with False e1 eq obtain hi c2 rs' where
        e2: "getEsc (tl c1) = Some (hi, c2)" and p: "parse_ranges True c2 = Some (rs', rest)"
        by (auto split: option.splits)
      from "1.IH"(1) [OF False e1 refl True e2 refl p] getEsc_shorter [OF e2] l1
      show ?thesis by simp
    next
      case F2: False
      with False e1 eq obtain rs' where p: "parse_ranges True c1 = Some (rs', rest)"
        by (auto split: option.splits)
      from "1.IH"(2) [OF False e1 refl F2 p] l1 show ?thesis by simp
    qed
  qed
qed

function parse_pattern :: "string \<Rightarrow> glob_token list option" where
  "parse_pattern [] = Some []"
| "parse_pattern (c # r) =
     (if c = CHR ''*'' then map_option ((#) Star) (parse_pattern r)
      else if c = CHR ''?'' then map_option ((#) AnyChar) (parse_pattern r)
      else if c = CHR ''['' then
        (let negated = (r \<noteq> [] \<and> hd r = CHR ''^'');
             r1 = (if negated then tl r else r)
         in case parse_ranges False r1 of
              None \<Rightarrow> None
            | Some (rs, r2) \<Rightarrow> map_option ((#) (Class negated rs)) (parse_pattern r2))
      else if c = CHR 0x5C then
        (case r of [] \<Rightarrow> None | d # r' \<Rightarrow> map_option ((#) (Lit d)) (parse_pattern r'))
      else map_option ((#) (Lit c)) (parse_pattern r))"
  by pat_completeness auto
termination
proof (relation "measure length", goal_cases)
  case (4 c r negated r1 x2 rs r2)
  then have "length r2 < length r1" and "length r1 \<le> length r"
    by (auto dest: parse_ranges_shorter)
  then show ?case by simp
qed auto

definition in_class :: "(char \<times> char) list \<Rightarrow> char \<Rightarrow> bool" where
  "in_class rs c = list_ex (\<lambda>(lo, hi). lo \<le> c \<and> c \<le> hi) rs"

fun tokens_match :: "glob_token list \<Rightarrow> string \<Rightarrow> bool" where
  "tokens_match [] n = (n = [])"
| "tokens_match (Star # ts) [] = tokens_match ts []"
| "tokens_match (Star # ts) (c # cs) =
     (tokens_match ts (c # cs) \<or> (c \<noteq> CHR ''/'' \<and> tokens_match (Star # ts) cs))"
| "tokens_match (AnyChar # ts) [] = False"
| "tokens_match (AnyChar # ts) (c # cs) = (c \<noteq> CHR ''/'' \<and> tokens_match ts cs)"
| "tokens_match (Class negated rs # ts) [] = False"
| "tokens_match (Class negated rs # ts) (c # cs) =
     (in_class rs c \<noteq> negated \<and> tokens_match ts cs)"
| "tokens_match (Lit x # ts) [] = False"
| "tokens_match (Lit x # ts) (c # cs) = (c = x \<and> tokens_match ts cs)"

definition Match :: "string \<Rightarrow> string \<Rightarrow> glob_error + bool" where
  "Match pattern name =
     (case parse_pattern pattern of
        None \<Rightarrow> Inl ErrBadPattern
      | Some ts \<Rightarrow> Inr (tokens_match ts name))"

definition hasMeta :: "string \<Rightarrow> bool" where
  "hasMeta path = list_ex (\<lambda>c. c \<in> set [CHR ''*'', CHR ''?'', CHR ''['', CHR 0x5C]) path"

definition cleanGlobPath :: "string \<Rightarrow> string" where
  "cleanGlobPath path =
     (if path = [] then ''.'' else if path = ''/'' then path else butlast path)"

subsection \<open>Package os: the file system\<close>

text \<open>
  The file system is a list of entries, each a path with what is there: a regular file
  with its content, or a directory. Paths name files lexically: an entry's path is
  clean (as \<^const>\<open>Clean\<close> leaves it), two different paths are two different files
  (there are no links), and the root and the working directory always exist. The
  program hands to the calls below only results of \<^const>\<open>Join\<close> and their directory
  parts, which are clean; \<^verbatim>\<open>MkdirAll\<close> receives the caller's directory as it is and
  resolves it with \<^const>\<open>Clean\<close>. Permissions are not modelled.
\<close>

datatype node = File string | Directory

type_synonym store = "(string \<times> node) list"

datatype io_error = ENOENT | ENOTDIR | EEXIST | EISDIR | ENOTEMPTY | EBUSY

definition lookup :: "store \<Rightarrow> string \<Rightarrow> node option" where
  "lookup fs p = (if p = ''/'' \<or> p = ''.'' then Some Directory else map_of fs p)"

definition delete :: "string \<Rightarrow> store \<Rightarrow> store" where
  "delete p fs = filter (\<lambda>(k, v). k \<noteq> p) fs"

text \<open>\<^verbatim>\<open>os.Stat\<close> and \<^verbatim>\<open>os.Lstat\<close> (the same without links); \<^verbatim>\<open>os.IsNotExist\<close>.\<close>

definition Stat :: "store \<Rightarrow> string \<Rightarrow> io_error + node" where
  "Stat fs p = (case lookup fs p of None \<Rightarrow> Inl ENOENT | Some n \<Rightarrow> Inr n)"

definition Lstat :: "store \<Rightarrow> string \<Rightarrow> io_error + node" where
  "Lstat fs p = Stat fs p"

definition IsNotExist :: "io_error + 'a \<Rightarrow> bool" where
  "IsNotExist r = (case r of Inl e \<Rightarrow> e = ENOENT | Inr x \<Rightarrow> False)"

text \<open>
  The names in a directory, sorted as \<^verbatim>\<open>os.ReadDir\<close> and \<^verbatim>\<open>filepath.Glob\<close>
  have them. An entry is in directory \<^verbatim>\<open>d\<close>, under its base name, when \<^verbatim>\<open>d\<close> is
  the directory part of its path and joining \<^verbatim>\<open>d\<close> and the base name gives the path
  back (for clean paths each of the two says the same).
\<close>

definition in_dir :: "string \<Rightarrow> string \<Rightarrow> bool" where
  "in_dir d k =
     (Dir k = d \<and> Join [d, Base k] = k \<and> Base k \<notin> set [''.'', ''..'', ''/''])"

definition Readdirnames :: "store \<Rightarrow> string \<Rightarrow> string list" where
  "Readdirnames fs d = sort (remdups (map Base (filter (in_dir d) (map fst fs))))"

text \<open>\<^verbatim>\<open>os.ReadFile\<close>.\<close>

definition ReadFile :: "store \<Rightarrow> string \<Rightarrow> io_error + string" where
  "ReadFile fs p =
     (case lookup fs p of
        None \<Rightarrow> Inl ENOENT
      | Some Directory \<Rightarrow> Inl EISDIR
      | Some (File data) \<Rightarrow> Inr data)"

text \<open>\<^verbatim>\<open>os.Remove\<close>: removes a file or an empty directory.\<close>

definition Remove :: "store \<Rightarrow> string \<Rightarrow> io_error + store" where
  "Remove fs p =
     (case lookup fs p of
        None \<Rightarrow> Inl ENOENT
      | Some (File data) \<Rightarrow> Inr (delete p fs)
      | Some Directory \<Rightarrow>
          if p = ''/'' \<or> p = ''.'' then Inl EBUSY
          else if Readdirnames fs p \<noteq> [] then Inl ENOTEMPTY
          else Inr (delete p fs))"







subsection \<open>filepath.Glob\<close>

text \<open>
  The errors of \<^verbatim>\<open>filepath.Glob\<close> are bad patterns only; what the file system
  refuses is read as no match. The result is the matches found and the error, if any.
\<close>

fun glob_names :: "string \<Rightarrow> string \<Rightarrow> string list \<Rightarrow> string list \<Rightarrow> string list \<times> glob_error option" where
  "glob_names dir pattern [] m = (m, None)"
| "glob_names dir pattern (n # names) m =
     (case Match pattern n of
        Inl e \<Rightarrow> (m, Some e)
      | Inr matched \<Rightarrow>
          glob_names dir pattern names (if matched then m @ [Join [dir, n]] else m))"

text \<open>\<^verbatim>\<open>glob(dir, pattern, matches)\<close>: the names of one directory that match.\<close>

definition glob :: "store \<Rightarrow> string \<Rightarrow> string \<Rightarrow> string list \<Rightarrow> string list \<times> glob_error option" where
  "glob fs dir pattern matches =
     (case Stat fs dir of
        Inl e \<Rightarrow> (matches, None)
      | Inr (File d) \<Rightarrow> (matches, None)
      | Inr Directory \<Rightarrow> glob_names dir pattern (Readdirnames fs dir) matches)"

fun glob_dirs :: "store \<Rightarrow> string \<Rightarrow> string list \<Rightarrow> string list \<Rightarrow> string list \<times> glob_error option" where
  "glob_dirs fs file [] matches = (matches, None)"
| "glob_dirs fs file (d # ds) matches =
     (case glob fs d file matches of
        (m, Some e) \<Rightarrow> (m, Some e)
      | (m, None) \<Rightarrow> glob_dirs fs file ds m)"

lemma cleanGlobPath_shorter:
  "hasMeta (cleanGlobPath (fst (Split pattern))) \<Longrightarrow>
   length (cleanGlobPath (fst (Split pattern))) < length pattern"
proof -
  assume h: "hasMeta (cleanGlobPath (fst (Split pattern)))"
  let ?d = "fst (Split pattern)"
  have le: "length ?d \<le> length pattern"
    using length_dropWhile_le [of "\<lambda>c. c \<noteq> CHR ''/''" "rev pattern"] by (simp add: Split_def)
  from h have "?d \<noteq> []" and "?d \<noteq> ''/''"
    by (auto simp: cleanGlobPath_def hasMeta_def)
  then have "length (cleanGlobPath ?d) < length ?d"
    by (simp add: cleanGlobPath_def)
  with le show ?thesis by simp
qed

text \<open>\<^verbatim>\<open>globWithLimit(pattern, depth)\<close>, and \<^verbatim>\<open>Glob\<close>, which starts it at depth 0.\<close>

function globWithLimit :: "store \<Rightarrow> string \<Rightarrow> nat \<Rightarrow> string list \<times> glob_error option" where
  "globWithLimit fs pattern depth =
     (if depth = 10000 then ([], Some ErrBadPattern)
      else if parse_pattern pattern = None then ([], Some ErrBadPattern)
      else if \<not> hasMeta pattern then
        (case Lstat fs pattern of Inl e \<Rightarrow> ([], None) | Inr n \<Rightarrow> ([pattern], None))
      else if \<not> hasMeta (cleanGlobPath (fst (Split pattern))) then
        glob fs (cleanGlobPath (fst (Split pattern))) (snd (Split pattern)) []
      else if cleanGlobPath (fst (Split pattern)) = pattern then ([], Some ErrBadPattern)
      else
        (case globWithLimit fs (cleanGlobPath (fst (Split pattern))) (depth + 1) of
           (m, Some e) \<Rightarrow> ([], Some e)
         | (m, None) \<Rightarrow> glob_dirs fs (snd (Split pattern)) m []))"
  by pat_completeness auto
termination
  by (relation "measure (\<lambda>(fs, pattern, depth). length pattern)")
     (auto simp: cleanGlobPath_shorter)

declare globWithLimit.simps [simp del]

definition Glob :: "store \<Rightarrow> string \<Rightarrow> string list \<times> glob_error option" where
  "Glob fs pattern = globWithLimit fs pattern 0"

section \<open>Package types: the device model\<close>

record DeviceSpec =
  HostPath :: string
  ContainerPath :: string
  Permissions :: string

record RdmaDevice =
  PciAddress :: string
  IfName :: string
  Vendor :: string
  DeviceID :: string
  Driver :: string
  LinkType :: string
  RdmaDevices :: "string list"
  DeviceSpecs :: "DeviceSpec list"

definition RequiredRdmaDevices :: "string list" where
  "RequiredRdmaDevices = [''rdma_cm'', ''umad'', ''uverbs'']"

section \<open>Package rdma: device discovery\<close>

text \<open>
  What discovery and diagnostics read from the host: the sysfs tree, the RDMA resource
  mapper (library \<^verbatim>\<open>rdmamap\<close>), symbolic links and the link query of library
  \<^verbatim>\<open>netlink\<close>, whose error is kept as its text.
\<close>

datatype LinkOperState =
  OperUnknown | OperNotPresent | OperDown | OperLowerLayerDown
  | OperTesting | OperDormant | OperUp

fun OperState_String :: "LinkOperState \<Rightarrow> string" where
  "OperState_String OperNotPresent = ''not-present''"
| "OperState_String OperDown = ''down''"
| "OperState_String OperLowerLayerDown = ''lower-layer-down''"
| "OperState_String OperTesting = ''testing''"
| "OperState_String OperDormant = ''dormant''"
| "OperState_String OperUp = ''up''"
| "OperState_String OperUnknown = ''unknown''"

record LinkAttrs =
  EncapType :: string
  OperState :: LinkOperState
  MTU :: int

record Host =
  sysfs :: store
  GetRdmaDevicesForPcidev :: "string \<Rightarrow> string list"
  RdmamapCharDevices :: "string \<Rightarrow> string list"
  Readlink :: "string \<Rightarrow> string option"
  LinkByName :: "string \<Rightarrow> string + LinkAttrs"

definition sysBusPci :: string where
  "sysBusPci = ''/sys/bus/pci/devices''"

datatype netnames_error = NoNetDir string io_error | ReadNetDirFailed string io_error

definition ReadDir :: "store \<Rightarrow> string \<Rightarrow> io_error + string list" where
  "ReadDir fs d =
     (case lookup fs d of
        None \<Rightarrow> Inl ENOENT
      | Some (File data) \<Rightarrow> Inl ENOTDIR
      | Some Directory \<Rightarrow> Inr (Readdirnames fs d))"

definition GetNetNames :: "Host \<Rightarrow> string \<Rightarrow> netnames_error + string list" where
  "GetNetNames h pciAddr =
     (let netDir = Join [sysBusPci, pciAddr, ''net''] in
      case Lstat (sysfs h) netDir of
        Inl e \<Rightarrow> Inl (NoNetDir pciAddr e)
      | Inr n \<Rightarrow>
          (case ReadDir (sysfs h) netDir of
             Inl e \<Rightarrow> Inl (ReadNetDirFailed netDir e)
           | Inr entries \<Rightarrow> Inr entries))"

definition GetPCIDevDriver :: "Host \<Rightarrow> string \<Rightarrow> string option" where
  "GetPCIDevDriver h pciAddr =
     (case Readlink h (Join [sysBusPci, pciAddr, ''driver'']) of
        None \<Rightarrow> None
      | Some driverInfo \<Rightarrow> Some (Base driverInfo))"

definition readSysfsAttr :: "Host \<Rightarrow> string \<Rightarrow> string" where
  "readSysfsAttr h path =
     (case ReadFile (sysfs h) path of
        Inl e \<Rightarrow> []
      | Inr data \<Rightarrow> TrimPrefix (TrimSpace data) ''0x'')"

definition GetPCIVendor :: "Host \<Rightarrow> string \<Rightarrow> string" where
  "GetPCIVendor h pciAddr = readSysfsAttr h (Join [sysBusPci, pciAddr, ''vendor''])"

definition GetPCIDeviceID :: "Host \<Rightarrow> string \<Rightarrow> string" where
  "GetPCIDeviceID h pciAddr = readSysfsAttr h (Join [sysBusPci, pciAddr, ''device''])"

definition GetLinkType :: "Host \<Rightarrow> string \<Rightarrow> string" where
  "GetLinkType h ifName =
     (if ifName = [] then []
      else case LinkByName h ifName of Inl e \<Rightarrow> [] | Inr attrs \<Rightarrow> EncapType attrs)"

definition GetRdmaCharDevices :: "Host \<Rightarrow> string \<Rightarrow> string list" where
  "GetRdmaCharDevices h pciAddress =
     concat (map (RdmamapCharDevices h) (GetRdmaDevicesForPcidev h pciAddress))"

datatype verify_error = RequiredTypeNotFound string

text \<open>The outer loop of \<^verbatim>\<open>VerifyRdmaDevices\<close> over the required types.\<close>

fun verify_required :: "string list \<Rightarrow> string list \<Rightarrow> verify_error option" where
  "verify_required [] charDevPaths = None"
| "verify_required (required # rest) charDevPaths =
     (if list_ex (\<lambda>devPath. Contains (Base devPath) required) charDevPaths
      then verify_required rest charDevPaths
      else Some (RequiredTypeNotFound required))"

definition VerifyRdmaDevices :: "string list \<Rightarrow> verify_error option" where
  "VerifyRdmaDevices charDevPaths = verify_required RequiredRdmaDevices charDevPaths"

definition buildDeviceSpecs :: "string list \<Rightarrow> DeviceSpec list" where
  "buildDeviceSpecs charDevs =
     map (\<lambda>dev. \<lparr>HostPath = dev, ContainerPath = dev, Permissions = ''rw''\<rparr>) charDevs"

definition buildRdmaDevice :: "Host \<Rightarrow> string \<Rightarrow> string list \<Rightarrow> RdmaDevice" where
  "buildRdmaDevice h pciAddr charDevs =
     (let dev = \<lparr>PciAddress = pciAddr, IfName = [],
                 Vendor = GetPCIVendor h pciAddr, DeviceID = GetPCIDeviceID h pciAddr,
                 Driver = [], LinkType = [],
                 RdmaDevices = charDevs, DeviceSpecs = buildDeviceSpecs charDevs\<rparr>;
          dev1 = (case GetNetNames h pciAddr of
                    Inr (n # names) \<Rightarrow> dev\<lparr>IfName := n\<rparr>
                  | _ \<Rightarrow> dev);
          dev2 = (case GetPCIDevDriver h pciAddr of
                    Some driver \<Rightarrow> dev1\<lparr>Driver := driver\<rparr>
                  | None \<Rightarrow> dev1)
      in dev2\<lparr>LinkType := GetLinkType h (IfName dev2)\<rparr>)"

datatype discover_error =
  NoCharDevices string
  | VerificationFailed string verify_error

definition DiscoverByPCI :: "Host \<Rightarrow> string \<Rightarrow> discover_error + RdmaDevice" where
  "DiscoverByPCI h pciAddress =
     (let charDevs = GetRdmaCharDevices h pciAddress in
      if charDevs = [] then Inl (NoCharDevices pciAddress)
      else case VerifyRdmaDevices charDevs of
        Some err \<Rightarrow> Inl (VerificationFailed pciAddress err)
      | None \<Rightarrow> Inr (buildRdmaDevice h pciAddress charDevs))"

section \<open>Package doctor: diagnostics\<close>

type_synonym Severity = string

definition Pass :: Severity where "Pass = ''PASS''"
definition Warn :: Severity where "Warn = ''WARN''"
definition Fail :: Severity where "Fail = ''FAIL''"

definition requiredKernelModules :: "string list" where
  "requiredKernelModules = [''ib_core'', ''ib_uverbs'', ''ib_umad'', ''rdma_cm'', ''rdma_ucm'']"

record CheckResult =
  Check :: string
  Severity :: Severity
  Message :: string
  Device :: string

record Report =
  Results :: "CheckResult list"
  HasWarn :: bool
  HasFail :: bool

text \<open>The zero value \<^verbatim>\<open>&Report{}\<close>.\<close>

definition emptyReport :: Report where
  "emptyReport = \<lparr>Results = [], HasWarn = False, HasFail = False\<rparr>"

text \<open>
  The methods take the report by pointer and update it; the model returns the updated
  report. Reports are values here: a nil pointer is not a report.
\<close>

definition add :: "Report \<Rightarrow> CheckResult \<Rightarrow> Report" where
  "add r cr =
     (let r1 = r\<lparr>Results := Results r @ [cr]\<rparr> in
      if Severity cr = Warn then r1\<lparr>HasWarn := True\<rparr>
      else if Severity cr = Fail then r1\<lparr>HasFail := True\<rparr>
      else r1)"

text \<open>The text of the error of \<^const>\<open>VerifyRdmaDevices\<close>, as \<^verbatim>\<open>%v\<close> prints it.\<close>

definition verify_error_text :: "verify_error \<Rightarrow> string" where
  "verify_error_text e =
     (case e of RequiredTypeNotFound required \<Rightarrow>
        ''required RDMA device type '' @ Quote required @ '' not found'')"

definition checkKernelModules :: "Host \<Rightarrow> Report \<Rightarrow> Report" where
  "checkKernelModules h report =
     (let missing = filter (\<lambda>m. IsNotExist (Stat (sysfs h) (''/sys/module/'' @ m)))
                      requiredKernelModules in
      if missing \<noteq> [] then
        add report \<lparr>Check = ''kernel_modules'', Severity = Fail,
          Message = ''Missing kernel modules: '' @ strings_Join missing '', '',
          Device = []\<rparr>
      else
        add report \<lparr>Check = ''kernel_modules'', Severity = Pass,
          Message = ''All required kernel modules loaded: ''
                    @ strings_Join requiredKernelModules '', '',
          Device = []\<rparr>)"

definition link_state_message :: "RdmaDevice \<Rightarrow> LinkAttrs \<Rightarrow> string" where
  "link_state_message dev attrs =
     ''Link '' @ IfName dev @ '' is '' @ OperState_String (OperState attrs)
     @ '' (encap: '' @ EncapType attrs @ '', MTU: '' @ itoa (MTU attrs) @ '')''"

definition checkLinkAttrs :: "Host \<Rightarrow> Report \<Rightarrow> RdmaDevice \<Rightarrow> Report \<times> RdmaDevice" where
  "checkLinkAttrs h report dev =
     (case LinkByName h (IfName dev) of
        Inl err \<Rightarrow>
          (add report \<lparr>Check = ''link_attrs'', Severity = Warn,
             Message = ''Cannot query link '' @ IfName dev @ '': '' @ err,
             Device = PciAddress dev\<rparr>, dev)
      | Inr attrs \<Rightarrow>
          (let dev1 = dev\<lparr>LinkType := EncapType attrs\<rparr> in
           if OperState attrs = OperUp then
             (add report \<lparr>Check = ''link_state'', Severity = Pass,
                Message = link_state_message dev1 attrs, Device = PciAddress dev1\<rparr>, dev1)
           else
             (add report \<lparr>Check = ''link_state'', Severity = Warn,
                Message = link_state_message dev1 attrs, Device = PciAddress dev1\<rparr>, dev1)))"

definition netns_mode_result :: "string \<Rightarrow> string \<Rightarrow> CheckResult" where
  "netns_mode_result data pciAddr =
     (let mode = TrimSpace data in
      if mode = ''exclusive'' \<or> mode = ''1'' \<or> mode = ''Y'' then
        \<lparr>Check = ''rdma_netns_mode'', Severity = Pass,
         Message = ''RDMA netns mode: exclusive ('' @ mode @ '')'', Device = pciAddr\<rparr>
      else if mode = ''shared'' \<or> mode = ''0'' \<or> mode = ''N'' then
        \<lparr>Check = ''rdma_netns_mode'', Severity = Warn,
         Message = ''RDMA netns mode: shared ('' @ mode @ '') ''
                   @ [CHR 0xE2, CHR 0x80, CHR 0x94]
                   @ '' containers may not isolate RDMA traffic'',
         Device = pciAddr\<rparr>
      else
        \<lparr>Check = ''rdma_netns_mode'', Severity = Warn,
         Message = ''Unknown RDMA netns mode: '' @ Quote mode, Device = pciAddr\<rparr>)"

definition checkRdmaNetnsMode :: "Host \<Rightarrow> Report \<Rightarrow> string \<Rightarrow> Report" where
  "checkRdmaNetnsMode h report pciAddr =
     (case ReadFile (sysfs h) ''/sys/module/rdma_cm/parameters/net_ns_mode'' of
        Inr data \<Rightarrow> add report (netns_mode_result data pciAddr)
      | Inl err \<Rightarrow>
          (case ReadFile (sysfs h) ''/sys/module/ib_core/parameters/netns_mode'' of
             Inr data \<Rightarrow> add report (netns_mode_result data pciAddr)
           | Inl err1 \<Rightarrow>
               add report \<lparr>Check = ''rdma_netns_mode'', Severity = Warn,
                 Message = ''Cannot read RDMA netns mode (sysfs path not available)'',
                 Device = pciAddr\<rparr>))"

text \<open>The first check of \<^verbatim>\<open>DiagnoseDevice\<close>: the character devices.\<close>

definition rdma_devices_result :: "RdmaDevice \<Rightarrow> CheckResult" where
  "rdma_devices_result dev =
     (if length (RdmaDevices dev) = 0 then
        \<lparr>Check = ''rdma_devices'', Severity = Fail,
         Message = ''No RDMA character devices found'', Device = PciAddress dev\<rparr>
      else case VerifyRdmaDevices (RdmaDevices dev) of
        Some err \<Rightarrow>
          \<lparr>Check = ''rdma_devices'', Severity = Fail,
           Message = ''Found '' @ itoa (int (length (RdmaDevices dev)))
                     @ '' device(s) but missing required types: '' @ verify_error_text err,
           Device = PciAddress dev\<rparr>
      | None \<Rightarrow>
          \<lparr>Check = ''rdma_devices'', Severity = Pass,
           Message = ''All required RDMA devices present (''
                     @ itoa (int (length (RdmaDevices dev))) @ ''): ''
                     @ strings_Join (RdmaDevices dev) '', '',
           Device = PciAddress dev\<rparr>)"

text \<open>
  \<^verbatim>\<open>DiagnoseDevice\<close> returns the report; the device it was given by pointer may have
  its link type refreshed, so the device is returned too.
\<close>

definition DiagnoseDevice :: "Host \<Rightarrow> RdmaDevice \<Rightarrow> Report \<times> RdmaDevice" where
  "DiagnoseDevice h dev =
     (let r1 = add emptyReport (rdma_devices_result dev);
          r2 = checkKernelModules h r1;
          (r3, dev3) =
            (if IfName dev \<noteq> [] then
               checkLinkAttrs h
                 (add r2 \<lparr>Check = ''net_interface'', Severity = Pass,
                    Message = ''Interface: '' @ IfName dev, Device = PciAddress dev\<rparr>) dev
             else
               (add r2 \<lparr>Check = ''net_interface'', Severity = Warn,
                  Message = ''No network interface associated'',
                  Device = PciAddress dev\<rparr>, dev));
          r4 = checkRdmaNetnsMode h r3 (PciAddress dev3)
      in (r4, dev3))"

definition MergeReports :: "Report list \<Rightarrow> Report" where
  "MergeReports reports = foldl (\<lambda>merged r. foldl add merged (Results r)) emptyReport reports"

section \<open>Package cdi: spec files\<close>

definition FilePrefix :: string where
  "FilePrefix = ''rdma-cdi''"

definition DefaultOutputDir :: string where
  "DefaultOutputDir = ''/etc/cdi''"

definition SpecFileName :: "string \<Rightarrow> string \<Rightarrow> string \<Rightarrow> string" where
  "SpecFileName pfx name format =
     (let safePrefix = ReplaceAll pfx ''/'' ''_''
      in FilePrefix @ ''_'' @ safePrefix @ ''_'' @ name @ ''.'' @ format)"






datatype validate_error = KindEmpty | NoDevices

datatype marshal_error = UnsupportedFormat string | EncodingFailed string

datatype cdi_error =
  CannotCreateOutputDir string io_error
  | InvalidSpec validate_error
  | CannotMarshal marshal_error
  | CannotWriteSpec string io_error
  | GlobFailed string glob_error
  | CannotRemove string io_error






text \<open>
  \<^verbatim>\<open>cleanupFiles\<close>: the loop over the paths, with the list of removed paths and the
  file system as they stand. The result is the list, the error, if any, and the file
  system after the call.
\<close>

fun cleanup_loop ::
  "store \<Rightarrow> string list \<Rightarrow> bool \<Rightarrow> string list \<Rightarrow> string list \<times> cdi_error option \<times> store" where
  "cleanup_loop fs [] dryRun removed = (removed, None, fs)"
| "cleanup_loop fs (p # paths) dryRun removed =
     (if IsNotExist (Stat fs p) then cleanup_loop fs paths dryRun removed
      else if dryRun then cleanup_loop fs paths dryRun (removed @ [p])
      else case Remove fs p of
        Inl e \<Rightarrow> (removed, Some (CannotRemove p e), fs)
      | Inr fs1 \<Rightarrow> cleanup_loop fs1 paths dryRun (removed @ [p]))"

definition cleanupFiles ::
  "store \<Rightarrow> string list \<Rightarrow> bool \<Rightarrow> string list \<times> cdi_error option \<times> store" where
  "cleanupFiles fs paths dryRun = cleanup_loop fs paths dryRun []"

text \<open>The loop of \<^verbatim>\<open>CleanupSpecs\<close> over the two extensions, collecting the matches.\<close>

fun glob_exts ::
  "store \<Rightarrow> string \<Rightarrow> string \<Rightarrow> string list \<Rightarrow> string list \<Rightarrow> cdi_error + string list" where
  "glob_exts fs dir safePrefix [] matches = Inr matches"
| "glob_exts fs dir safePrefix (ext # exts) matches =
     (let pattern = Join [dir, FilePrefix @ ''_'' @ safePrefix @ ''_*.'' @ ext] in
      case Glob fs pattern of
        (m, Some e) \<Rightarrow> Inl (GlobFailed pattern e)
      | (m, None) \<Rightarrow> glob_exts fs dir safePrefix exts (matches @ m))"

definition CleanupSpecs ::
  "store \<Rightarrow> string \<Rightarrow> string \<Rightarrow> string \<Rightarrow> bool \<Rightarrow> string list \<times> cdi_error option \<times> store" where
  "CleanupSpecs fs dir0 pfx name dryRun =
     (let dir = (if dir0 = [] then DefaultOutputDir else dir0);
          safePrefix = ReplaceAll pfx ''/'' ''_''
      in if name \<noteq> [] then
           (let patternJSON = Join [dir, FilePrefix @ ''_'' @ safePrefix @ ''_'' @ name @ ''.json''];
                patternYAML = Join [dir, FilePrefix @ ''_'' @ safePrefix @ ''_'' @ name @ ''.yaml'']
            in cleanupFiles fs [patternJSON, patternYAML] dryRun)
         else
           (case glob_exts fs dir safePrefix [''json'', ''yaml''] [] of
              Inl e \<Rightarrow> ([], Some e, fs)
            | Inr matches \<Rightarrow> cleanupFiles fs matches dryRun))"

section \<open>Notions for the properties\<close>

text \<open>
  The invariant of a report: each flag is set exactly when a result has its severity.
\<close>

definition report_inv :: "Report \<Rightarrow> bool" where
  "report_inv r \<longleftrightarrow>
     HasWarn r = (\<exists>cr \<in> set (Results r). Severity cr = Warn) \<and>
     HasFail r = (\<exists>cr \<in> set (Results r). Severity cr = Fail)"


text \<open>A plain character of a pattern stands for itself.\<close>

definition plain :: "char \<Rightarrow> bool" where
  "plain c \<longleftrightarrow> c \<noteq> CHR ''*'' \<and> c \<noteq> CHR ''?'' \<and> c \<noteq> CHR ''['' \<and> c \<noteq> CHR 0x5C"

text \<open>
  A hit of a file pattern: an entry of the file system, in its directory, whose base name
  matches the pattern.
\<close>

definition hit :: "store \<Rightarrow> string \<Rightarrow> string \<Rightarrow> bool" where
  "hit fs file k \<longleftrightarrow> k \<in> fst ` set fs \<and> in_dir (Dir k) k \<and> Match file (Base k) = Inr True"

text \<open>
  A safe path: its base name begins with the tool's prefix and an underscore, and its
  extension is \<^verbatim>\<open>.json\<close> or \<^verbatim>\<open>.yaml\<close>.
\<close>

definition own_spec_path :: "string \<Rightarrow> bool" where
  "own_spec_path k \<longleftrightarrow>
     prefix (FilePrefix @ ''_'') (Base k) \<and> (Ext k = ''.json'' \<or> Ext k = ''.yaml'')"

text \<open>
  The paths that \<^verbatim>\<open>CleanupSpecs\<close> hands to \<^verbatim>\<open>cleanupFiles\<close>, or the error of
  \<^verbatim>\<open>Glob\<close>.
\<close>

definition candidates :: "store \<Rightarrow> string \<Rightarrow> string \<Rightarrow> string \<Rightarrow> cdi_error + string list" where
  "candidates fs dir0 pfx name =
     (let dir = (if dir0 = [] then DefaultOutputDir else dir0) in
      if name \<noteq> [] then
        Inr [Join [dir, SpecFileName pfx name ''json''], Join [dir, SpecFileName pfx name ''yaml'']]
      else glob_exts fs dir (ReplaceAll pfx ''/'' ''_'') [''json'', ''yaml''] [])"

section \<open>Examples\<close>

text \<open>
  A host on which nothing is found, and the device without character devices of the
  diagnostics tests.
\<close>

definition quiet_host :: Host where
  "quiet_host = \<lparr>sysfs = [], GetRdmaDevicesForPcidev = (\<lambda>pci. []),
     RdmamapCharDevices = (\<lambda>res. []), Readlink = (\<lambda>p. None),
     LinkByName = (\<lambda>n. Inl ''Link not found'')\<rparr>"

definition brokenDevice :: RdmaDevice where
  "brokenDevice = \<lparr>PciAddress = ''0000:17:00.2'', IfName = [], Vendor = [], DeviceID = [],
     Driver = [], LinkType = [], RdmaDevices = [], DeviceSpecs = []\<rparr>"



text \<open>
  The directory of the cleanup tests: four spec files of this tool, two files of other
  tools and two files of this tool's naming with another extension.
\<close>

definition seeded_dir :: store where
  "seeded_dir =
     [(''/etc'', Directory), (''/etc/cdi'', Directory),
      (''/etc/cdi/rdma-cdi_rdma_dev1.yaml'', File ''test''),
      (''/etc/cdi/rdma-cdi_rdma_dev1.json'', File ''test''),
      (''/etc/cdi/rdma-cdi_rdma_dev2.yaml'', File ''test''),
      (''/etc/cdi/rdma-cdi_custom_dev3.json'', File ''test''),
      (''/etc/cdi/nvidia-cdi_rdma_gpu0.yaml'', File ''test''),
      (''/etc/cdi/other-tool.json'', File ''test''),
      (''/etc/cdi/rdma-cdi_rdma_dev1.txt'', File ''test''),
      (''/etc/cdi/rdma-cdi_rdma_dev1.bak'', File ''test'')]"


section \<open>Properties of the library functions\<close>

lemma ReplaceAll_single:
  "ReplaceAll s [a] [b] = map (\<lambda>c. if c = a then b else c) s"
  by (induction s) auto

lemma Contains_iff: "Contains s t \<longleftrightarrow> (\<exists>a b. s = a @ t @ b)"
proof (induction s)
  case Nil
  show ?case by auto
next
  case (Cons c cs)
  show ?case
  proof
    assume "Contains (c # cs) t"
    then consider "prefix t (c # cs)" | "Contains cs t" by auto
    then show "\<exists>a b. c # cs = a @ t @ b"
    proof cases
      case 1
      then obtain b where "c # cs = t @ b" by (auto simp: prefix_def)
      then have "c # cs = [] @ t @ b" by simp
      then show ?thesis by blast
    next
      case 2
      with Cons.IH obtain a b where "cs = a @ t @ b" by blast
      then have "c # cs = (c # a) @ t @ b" by simp
      then show ?thesis by blast
    qed
  next
    assume "\<exists>a b. c # cs = a @ t @ b"
    then obtain a b where ab: "c # cs = a @ t @ b" by blast
    show "Contains (c # cs) t"
    proof (cases a)
      case Nil
      with ab have "prefix t (c # cs)" by (simp add: prefix_def)
      then show ?thesis by simp
    next
      case (Cons x a')
      with ab have "cs = a' @ t @ b" by simp
      with Cons.IH have "Contains cs t" by blast
      then show ?thesis by simp
    qed
  qed
qed

section \<open>File names\<close>

text \<open>
  Claim C3. \<^verbatim>\<open>SpecFileName\<close> is a function of prefix, name and format alone. Its result
  is the tool prefix, an underscore, the safe prefix, an underscore, the name, a dot and
  the format. The safe prefix is the prefix with every \<^verbatim>\<open>/\<close> replaced by the one
  character \<^verbatim>\<open>_\<close>: it has the length of the prefix, it differs from the prefix at
  exactly as many positions as the prefix has slashes, and it has no slash left; name and
  format are taken as they are.
\<close>

theorem SpecFileName_form:
  "SpecFileName pfx name format =
     ''rdma-cdi'' @ ''_'' @ map (\<lambda>c. if c = CHR ''/'' then CHR ''_'' else c) pfx
       @ ''_'' @ name @ ''.'' @ format
   \<and> ReplaceAll pfx ''/'' ''_'' = map (\<lambda>c. if c = CHR ''/'' then CHR ''_'' else c) pfx
   \<and> length (ReplaceAll pfx ''/'' ''_'') = length pfx
   \<and> length (filter (\<lambda>(a, b). a \<noteq> b) (zip pfx (ReplaceAll pfx ''/'' ''_'')))
       = count_list pfx CHR ''/''
   \<and> CHR ''/'' \<notin> set (ReplaceAll pfx ''/'' ''_'')"
proof -
  let ?f = "\<lambda>c. if c = CHR ''/'' then CHR ''_'' else c"
  have r: "ReplaceAll pfx ''/'' ''_'' = map ?f pfx" by (rule ReplaceAll_single)
  have cnt: "length (filter (\<lambda>(a, b). a \<noteq> b) (zip pfx (map ?f pfx))) = count_list pfx CHR ''/''"
    by (induction pfx) auto
  have nosl: "CHR ''/'' \<notin> set (map ?f pfx)" by auto
  show ?thesis
    unfolding r using cnt nosl by (simp add: SpecFileName_def FilePrefix_def r)
qed

theorem SpecFileName_form_witness:
  "SpecFileName ''example.io/rdma'' ''dev1'' ''yaml'' = ''rdma-cdi_example.io_rdma_dev1.yaml''
   \<and> count_list ''example.io/rdma'' CHR ''/'' = 1"
  using SpecFileName_form [of "''example.io/rdma''" "''dev1''" "''yaml''"] by simp

section \<open>Reports\<close>

lemma Severity_distinct [simp]:
  "Warn \<noteq> Fail" "Fail \<noteq> Warn" "Pass \<noteq> Warn" "Pass \<noteq> Fail" "Warn \<noteq> Pass" "Fail \<noteq> Pass"
  by (simp_all add: Pass_def Warn_def Fail_def)

lemma add_Results [simp]: "Results (add r cr) = Results r @ [cr]"
  by (simp add: add_def Let_def)

lemma add_HasWarn [simp]: "HasWarn (add r cr) = (HasWarn r \<or> Severity cr = Warn)"
  by (auto simp: add_def Let_def)

lemma add_HasFail [simp]: "HasFail (add r cr) = (HasFail r \<or> Severity cr = Fail)"
  by (auto simp: add_def Let_def)

lemma foldl_add_Results: "Results (foldl add r crs) = Results r @ crs"
  by (induction crs arbitrary: r) simp_all

lemma foldl_add_HasWarn:
  "HasWarn (foldl add r crs) = (HasWarn r \<or> (\<exists>cr \<in> set crs. Severity cr = Warn))"
  by (induction crs arbitrary: r) auto

lemma foldl_add_HasFail:
  "HasFail (foldl add r crs) = (HasFail r \<or> (\<exists>cr \<in> set crs. Severity cr = Fail))"
  by (induction crs arbitrary: r) auto

lemma MergeReports_foldl:
  "foldl (\<lambda>merged r. foldl add merged (Results r)) m reports
     = foldl add m (concat (map Results reports))"
  by (induction reports arbitrary: m) simp_all

lemma MergeReports_eq: "MergeReports reports = foldl add emptyReport (concat (map Results reports))"
  by (simp add: MergeReports_def MergeReports_foldl)

text \<open>
  Claim C6. The results of \<^verbatim>\<open>MergeReports\<close> are the results of its arguments, in
  argument order; its warn flag says that one of these results is a warning, its fail
  flag that one is a failure. So reports of passes only give neither flag, passes with a
  warning give the warn flag alone, and passes with a failure give the fail flag alone.
\<close>

theorem MergeReports_concat_or:
  "Results (MergeReports reports) = concat (map Results reports)
   \<and> HasWarn (MergeReports reports)
       = (\<exists>cr \<in> set (concat (map Results reports)). Severity cr = Warn)
   \<and> HasFail (MergeReports reports)
       = (\<exists>cr \<in> set (concat (map Results reports)). Severity cr = Fail)
   \<and> ((\<forall>cr \<in> set (concat (map Results reports)). Severity cr = Pass)
        \<longrightarrow> \<not> HasWarn (MergeReports reports) \<and> \<not> HasFail (MergeReports reports))
   \<and> ((\<forall>cr \<in> set (concat (map Results reports)). Severity cr = Pass \<or> Severity cr = Warn)
        \<and> (\<exists>cr \<in> set (concat (map Results reports)). Severity cr = Warn)
        \<longrightarrow> HasWarn (MergeReports reports) \<and> \<not> HasFail (MergeReports reports))
   \<and> ((\<forall>cr \<in> set (concat (map Results reports)). Severity cr = Pass \<or> Severity cr = Fail)
        \<and> (\<exists>cr \<in> set (concat (map Results reports)). Severity cr = Fail)
        \<longrightarrow> \<not> HasWarn (MergeReports reports) \<and> HasFail (MergeReports reports))"
proof -
  let ?all = "concat (map Results reports)"
  have res: "Results (MergeReports reports) = ?all"
    by (simp add: MergeReports_eq foldl_add_Results emptyReport_def)
  have w: "HasWarn (MergeReports reports) = (\<exists>cr \<in> set ?all. Severity cr = Warn)"
    by (simp add: MergeReports_eq foldl_add_HasWarn emptyReport_def)
  have f: "HasFail (MergeReports reports) = (\<exists>cr \<in> set ?all. Severity cr = Fail)"
    by (simp add: MergeReports_eq foldl_add_HasFail emptyReport_def)
  have p: "(\<forall>cr \<in> set ?all. Severity cr = Pass)
      \<longrightarrow> \<not> HasWarn (MergeReports reports) \<and> \<not> HasFail (MergeReports reports)"
    unfolding w f using Severity_distinct by metis
  have pw: "(\<forall>cr \<in> set ?all. Severity cr = Pass \<or> Severity cr = Warn)
      \<and> (\<exists>cr \<in> set ?all. Severity cr = Warn)
      \<longrightarrow> HasWarn (MergeReports reports) \<and> \<not> HasFail (MergeReports reports)"
    unfolding w f using Severity_distinct by metis
  have pf: "(\<forall>cr \<in> set ?all. Severity cr = Pass \<or> Severity cr = Fail)
      \<and> (\<exists>cr \<in> set ?all. Severity cr = Fail)
      \<longrightarrow> \<not> HasWarn (MergeReports reports) \<and> HasFail (MergeReports reports)"
    unfolding w f using Severity_distinct by metis
  from res w f p pw pf show ?thesis by blast
qed

theorem MergeReports_concat_or_witness:
  "Results (MergeReports
      [add emptyReport \<lparr>Check = ''a'', Severity = Pass, Message = ''ok'', Device = []\<rparr>,
       add emptyReport \<lparr>Check = ''b'', Severity = Warn, Message = ''warn'', Device = []\<rparr>])
     = [\<lparr>Check = ''a'', Severity = Pass, Message = ''ok'', Device = []\<rparr>,
        \<lparr>Check = ''b'', Severity = Warn, Message = ''warn'', Device = []\<rparr>]
   \<and> HasWarn (MergeReports
      [add emptyReport \<lparr>Check = ''a'', Severity = Pass, Message = ''ok'', Device = []\<rparr>,
       add emptyReport \<lparr>Check = ''b'', Severity = Warn, Message = ''warn'', Device = []\<rparr>])
   \<and> \<not> HasFail (MergeReports
      [add emptyReport \<lparr>Check = ''a'', Severity = Pass, Message = ''ok'', Device = []\<rparr>,
       add emptyReport \<lparr>Check = ''b'', Severity = Warn, Message = ''warn'', Device = []\<rparr>])"
  using MergeReports_concat_or [of
      "[add emptyReport \<lparr>Check = ''a'', Severity = Pass, Message = ''ok'', Device = []\<rparr>,
        add emptyReport \<lparr>Check = ''b'', Severity = Warn, Message = ''warn'', Device = []\<rparr>]"]
  by (simp add: emptyReport_def)

lemma report_inv_foldl_add: "report_inv (foldl add emptyReport crs)"
  by (simp add: report_inv_def foldl_add_Results foldl_add_HasWarn foldl_add_HasFail
      emptyReport_def)

lemma report_inv_add: "report_inv r \<Longrightarrow> report_inv (add r cr)"
  by (auto simp: report_inv_def)

lemma checkKernelModules_add:
  "\<exists>cr. checkKernelModules h r = add r cr \<and> Check cr = ''kernel_modules''"
  unfolding checkKernelModules_def Let_def
  by (split if_split) (intro conjI impI; (rule exI, rule conjI, rule refl, simp))

lemma checkLinkAttrs_add:
  "\<exists>cr. fst (checkLinkAttrs h r dev) = add r cr
     \<and> (Check cr = ''link_attrs'' \<or> Check cr = ''link_state'')"
proof (cases "LinkByName h (IfName dev)")
  case (Inl err)
  then show ?thesis
    unfolding checkLinkAttrs_def by (simp only: sum.case fst_conv) (rule exI, rule conjI, rule refl, simp)
next
  case (Inr attrs)
  then show ?thesis
    unfolding checkLinkAttrs_def Let_def
    by (simp only: sum.case fst_conv split: if_split)
       (intro conjI impI; (rule exI, rule conjI, rule refl, simp))
qed

lemma checkRdmaNetnsMode_add:
  "\<exists>cr. checkRdmaNetnsMode h r pciAddr = add r cr \<and> Check cr = ''rdma_netns_mode''"
proof -
  have n: "Check (netns_mode_result data pciAddr) = ''rdma_netns_mode''" for data
    by (simp add: netns_mode_result_def Let_def)
  show ?thesis
    unfolding checkRdmaNetnsMode_def
    by (cases "ReadFile (sysfs h) ''/sys/module/rdma_cm/parameters/net_ns_mode''";
        cases "ReadFile (sysfs h) ''/sys/module/ib_core/parameters/netns_mode''";
        simp only: sum.case)
       (rule exI, rule conjI, rule refl, simp add: n)+
qed

lemma rdma_devices_result_Check: "Check (rdma_devices_result dev) = ''rdma_devices''"
  by (simp add: rdma_devices_result_def split: option.split)

lemma DiagnoseDevice_results:
  "\<exists>crs. fst (DiagnoseDevice h dev) = foldl add emptyReport (rdma_devices_result dev # crs)
     \<and> (\<forall>cr \<in> set crs. Check cr \<noteq> ''rdma_devices'')"
proof -
  let ?r1 = "add emptyReport (rdma_devices_result dev)"
  obtain c2 where c2: "checkKernelModules h ?r1 = add ?r1 c2" "Check c2 = ''kernel_modules''"
    using checkKernelModules_add by blast
  let ?r2 = "add ?r1 c2"
  let ?ni = "\<lparr>Check = ''net_interface'', Severity = Pass,
               Message = ''Interface: '' @ IfName dev, Device = PciAddress dev\<rparr>"
  let ?nw = "\<lparr>Check = ''net_interface'', Severity = Warn,
               Message = ''No network interface associated'', Device = PciAddress dev\<rparr>"
  show ?thesis
  proof (cases "IfName dev \<noteq> []")
    case True
    obtain c4 where c4: "fst (checkLinkAttrs h (add ?r2 ?ni) dev) = add (add ?r2 ?ni) c4"
        "Check c4 = ''link_attrs'' \<or> Check c4 = ''link_state''"
      using checkLinkAttrs_add by blast
    let ?r3 = "add (add ?r2 ?ni) c4"
    let ?d3 = "snd (checkLinkAttrs h (add ?r2 ?ni) dev)"
    obtain c5 where c5: "checkRdmaNetnsMode h ?r3 (PciAddress ?d3) = add ?r3 c5"
        "Check c5 = ''rdma_netns_mode''"
      using checkRdmaNetnsMode_add by blast
    have "fst (DiagnoseDevice h dev) = add ?r3 c5"
      using True c2(1) c4(1) c5(1) by (simp add: DiagnoseDevice_def Let_def split_beta)
    then have "fst (DiagnoseDevice h dev)
        = foldl add emptyReport (rdma_devices_result dev # [c2, ?ni, c4, c5])"
      by simp
    moreover have "\<forall>cr \<in> set [c2, ?ni, c4, c5]. Check cr \<noteq> ''rdma_devices''"
      using c2(2) c4(2) c5(2) by auto
    ultimately show ?thesis by blast
  next
    case False
    let ?r3 = "add ?r2 ?nw"
    obtain c5 where c5: "checkRdmaNetnsMode h ?r3 (PciAddress dev) = add ?r3 c5"
        "Check c5 = ''rdma_netns_mode''"
      using checkRdmaNetnsMode_add by blast
    have "fst (DiagnoseDevice h dev) = add ?r3 c5"
      using False c2(1) c5(1) by (simp add: DiagnoseDevice_def Let_def)
    then have "fst (DiagnoseDevice h dev)
        = foldl add emptyReport (rdma_devices_result dev # [c2, ?nw, c5])"
      by simp
    moreover have "\<forall>cr \<in> set [c2, ?nw, c5]. Check cr \<noteq> ''rdma_devices''"
      using c2(2) c5(2) by auto
    ultimately show ?thesis by blast
  qed
qed

text \<open>
  Claim C9. The invariant \<^const>\<open>report_inv\<close> (the warn flag is set exactly when a result
  is a warning, the fail flag exactly when a result is a failure) holds of the empty
  report, is kept by \<^verbatim>\<open>add\<close>, and holds of every report that \<^verbatim>\<open>DiagnoseDevice\<close> or
  \<^verbatim>\<open>MergeReports\<close> returns.
\<close>

theorem report_invariant:
  "report_inv emptyReport
   \<and> (report_inv r \<longrightarrow> report_inv (add r cr))
   \<and> report_inv (fst (DiagnoseDevice h dev))
   \<and> report_inv (MergeReports reports)"
proof -
  have e: "report_inv emptyReport" by (simp add: report_inv_def emptyReport_def)
  have d: "report_inv (fst (DiagnoseDevice h dev))"
    using DiagnoseDevice_results [of h dev] report_inv_foldl_add by metis
  have m: "report_inv (MergeReports reports)"
    by (simp add: MergeReports_eq report_inv_foldl_add)
  from e d m report_inv_add show ?thesis by blast
qed

theorem report_invariant_witness:
  "report_inv emptyReport
   \<and> report_inv (add emptyReport
        \<lparr>Check = ''b'', Severity = Warn, Message = ''warn'', Device = []\<rparr>)
   \<and> report_inv (fst (DiagnoseDevice quiet_host brokenDevice))
   \<and> report_inv (MergeReports [fst (DiagnoseDevice quiet_host brokenDevice)])"
  using report_invariant [of emptyReport
      "\<lparr>Check = ''b'', Severity = Warn, Message = ''warn'', Device = []\<rparr>"
      quiet_host brokenDevice "[fst (DiagnoseDevice quiet_host brokenDevice)]"]
  by blast

section \<open>Required device types\<close>

lemma verify_required_None:
  "verify_required req ps = None \<longleftrightarrow> (\<forall>t \<in> set req. \<exists>p \<in> set ps. Contains (Base p) t)"
  by (induction req) (simp_all add: list_ex_iff)

lemma verify_required_set:
  "set ps = set qs \<Longrightarrow> verify_required req ps = verify_required req qs"
  by (induction req) (simp_all add: list_ex_iff)

lemma VerifyRdmaDevices_Nil: "VerifyRdmaDevices [] \<noteq> None"
  by (simp add: VerifyRdmaDevices_def RequiredRdmaDevices_def)

text \<open>
  Claim C2. \<^verbatim>\<open>VerifyRdmaDevices\<close> fails exactly when one of the three required tokens
  occurs in the base name of no path of the list. Its result depends on the set of paths
  only, not on their order or on repetitions. \<^verbatim>\<open>DiscoverByPCI\<close> returns a device
  exactly when the validation of the character devices it found succeeds.
\<close>

theorem VerifyRdmaDevices_required_types:
  "RequiredRdmaDevices = [''rdma_cm'', ''umad'', ''uverbs'']
   \<and> (VerifyRdmaDevices paths \<noteq> None)
       = (\<exists>t \<in> set RequiredRdmaDevices. \<forall>p \<in> set paths. \<not> (\<exists>a b. Base p = a @ t @ b))
   \<and> (set paths = set paths' \<longrightarrow> VerifyRdmaDevices paths = VerifyRdmaDevices paths')
   \<and> ((\<exists>dev. DiscoverByPCI h pci = Inr dev)
        = (VerifyRdmaDevices (GetRdmaCharDevices h pci) = None))"
proof -
  have n: "(VerifyRdmaDevices paths = None)
      = (\<forall>t \<in> set RequiredRdmaDevices. \<exists>p \<in> set paths. \<exists>a b. Base p = a @ t @ b)"
    by (simp only: VerifyRdmaDevices_def verify_required_None Contains_iff)
  have a: "(VerifyRdmaDevices paths \<noteq> None)
      = (\<exists>t \<in> set RequiredRdmaDevices. \<forall>p \<in> set paths. \<not> (\<exists>a b. Base p = a @ t @ b))"
    unfolding n by blast
  have b: "set paths = set paths' \<longrightarrow> VerifyRdmaDevices paths = VerifyRdmaDevices paths'"
    unfolding VerifyRdmaDevices_def by (rule impI) (rule verify_required_set)
  have c: "(\<exists>dev. DiscoverByPCI h pci = Inr dev)
      = (VerifyRdmaDevices (GetRdmaCharDevices h pci) = None)"
  proof (cases "GetRdmaCharDevices h pci = []")
    case True
    with VerifyRdmaDevices_Nil show ?thesis by (simp add: DiscoverByPCI_def)
  next
    case False
    then show ?thesis
      by (cases "VerifyRdmaDevices (GetRdmaCharDevices h pci)") (simp_all add: DiscoverByPCI_def)
  qed
  from a b c RequiredRdmaDevices_def show ?thesis by (intro conjI)
qed

theorem VerifyRdmaDevices_required_types_witness:
  "VerifyRdmaDevices [''/dev/infiniband/uverbs0'', ''/dev/infiniband/umad0'',
      ''/dev/infiniband/rdma_cm'', ''/dev/infiniband/umad0''] = None
   \<and> VerifyRdmaDevices [''/dev/infiniband/rdma_cm'', ''/dev/infiniband/umad0''] \<noteq> None"
proof -
  let ?A = "[''/dev/infiniband/rdma_cm'', ''/dev/infiniband/umad0'', ''/dev/infiniband/uverbs0'']"
  let ?B = "[''/dev/infiniband/uverbs0'', ''/dev/infiniband/umad0'',
      ''/dev/infiniband/rdma_cm'', ''/dev/infiniband/umad0'']"
  note perm = VerifyRdmaDevices_required_types
    [of ?A ?B quiet_host "''0000:17:00.0''", THEN conjunct2, THEN conjunct2, THEN conjunct1]
  have s: "set ?A = set ?B" by (simp add: insert_commute)
  have ok: "VerifyRdmaDevices ?A = None" by code_simp
  have bad: "VerifyRdmaDevices [''/dev/infiniband/rdma_cm'', ''/dev/infiniband/umad0'']
      = Some (RequiredTypeNotFound ''uverbs'')"
    by code_simp
  from perm s have "VerifyRdmaDevices ?B = VerifyRdmaDevices ?A" by (simp only:)
  with ok bad show ?thesis by (simp only: option.distinct simp_thms)
qed

section \<open>The character-device check of the diagnostics\<close>

text \<open>
  Claim C8. The first result of \<^verbatim>\<open>DiagnoseDevice\<close> is the character-device check, named
  \<^verbatim>\<open>rdma_devices\<close> and carrying the device's PCI address, and no other result has that
  name. Without character devices it is a failure and the report's fail flag is set; with
  character devices that fail the validation it is a failure whose message ends with the
  text of the validation error, and the fail flag is set; with character devices that
  pass the validation it is a pass.
\<close>

theorem DiagnoseDevice_char_device_check:
  "(RdmaDevices dev = [] \<longrightarrow>
      hd (Results (fst (DiagnoseDevice h dev)))
        = \<lparr>Check = ''rdma_devices'', Severity = Fail,
           Message = ''No RDMA character devices found'', Device = PciAddress dev\<rparr>
      \<and> HasFail (fst (DiagnoseDevice h dev)))
   \<and> (\<forall>err. RdmaDevices dev \<noteq> [] \<and> VerifyRdmaDevices (RdmaDevices dev) = Some err \<longrightarrow>
      hd (Results (fst (DiagnoseDevice h dev)))
        = \<lparr>Check = ''rdma_devices'', Severity = Fail,
           Message = ''Found '' @ itoa (int (length (RdmaDevices dev)))
                     @ '' device(s) but missing required types: '' @ verify_error_text err,
           Device = PciAddress dev\<rparr>
      \<and> HasFail (fst (DiagnoseDevice h dev)))
   \<and> (VerifyRdmaDevices (RdmaDevices dev) = None \<longrightarrow>
      hd (Results (fst (DiagnoseDevice h dev)))
        = \<lparr>Check = ''rdma_devices'', Severity = Pass,
           Message = ''All required RDMA devices present (''
                     @ itoa (int (length (RdmaDevices dev))) @ ''): ''
                     @ strings_Join (RdmaDevices dev) '', '',
           Device = PciAddress dev\<rparr>)
   \<and> filter (\<lambda>cr. Check cr = ''rdma_devices'') (Results (fst (DiagnoseDevice h dev)))
       = [hd (Results (fst (DiagnoseDevice h dev)))]"
proof -
  let ?r = "fst (DiagnoseDevice h dev)"
  obtain crs where r: "?r = foldl add emptyReport (rdma_devices_result dev # crs)"
    and crs: "\<forall>cr \<in> set crs. Check cr \<noteq> ''rdma_devices''"
    using DiagnoseDevice_results by blast
  have res: "Results ?r = rdma_devices_result dev # crs"
    by (simp add: r foldl_add_Results emptyReport_def)
  have hd: "hd (Results ?r) = rdma_devices_result dev" by (simp add: res)
  have fail: "Severity (rdma_devices_result dev) = Fail \<Longrightarrow> HasFail ?r"
    by (simp add: r foldl_add_HasFail)
  have flt: "filter (\<lambda>cr. Check cr = ''rdma_devices'') crs = []"
    using crs by (simp add: filter_empty_conv)
  have only: "filter (\<lambda>cr. Check cr = ''rdma_devices'') (Results ?r) = [hd (Results ?r)]"
    unfolding res using flt by (simp add: rdma_devices_result_Check)
  have c1: "RdmaDevices dev = [] \<longrightarrow>
      hd (Results ?r) = \<lparr>Check = ''rdma_devices'', Severity = Fail,
           Message = ''No RDMA character devices found'', Device = PciAddress dev\<rparr>
      \<and> HasFail ?r"
  proof
    assume e: "RdmaDevices dev = []"
    then have v: "rdma_devices_result dev = \<lparr>Check = ''rdma_devices'', Severity = Fail,
           Message = ''No RDMA character devices found'', Device = PciAddress dev\<rparr>"
      by (simp add: rdma_devices_result_def)
    with fail show "hd (Results ?r) = \<lparr>Check = ''rdma_devices'', Severity = Fail,
           Message = ''No RDMA character devices found'', Device = PciAddress dev\<rparr>
      \<and> HasFail ?r"
      by (simp add: hd)
  qed
  have c2: "\<forall>err. RdmaDevices dev \<noteq> [] \<and> VerifyRdmaDevices (RdmaDevices dev) = Some err \<longrightarrow>
      hd (Results ?r) = \<lparr>Check = ''rdma_devices'', Severity = Fail,
           Message = ''Found '' @ itoa (int (length (RdmaDevices dev)))
                     @ '' device(s) but missing required types: '' @ verify_error_text err,
           Device = PciAddress dev\<rparr>
      \<and> HasFail ?r"
  proof (intro allI impI)
    fix err
    assume a: "RdmaDevices dev \<noteq> [] \<and> VerifyRdmaDevices (RdmaDevices dev) = Some err"
    then have v: "rdma_devices_result dev = \<lparr>Check = ''rdma_devices'', Severity = Fail,
           Message = ''Found '' @ itoa (int (length (RdmaDevices dev)))
                     @ '' device(s) but missing required types: '' @ verify_error_text err,
           Device = PciAddress dev\<rparr>"
      by (simp add: rdma_devices_result_def)
    with fail show "hd (Results ?r) = \<lparr>Check = ''rdma_devices'', Severity = Fail,
           Message = ''Found '' @ itoa (int (length (RdmaDevices dev)))
                     @ '' device(s) but missing required types: '' @ verify_error_text err,
           Device = PciAddress dev\<rparr>
      \<and> HasFail ?r"
      by (simp add: hd)
  qed
  have c3: "VerifyRdmaDevices (RdmaDevices dev) = None \<longrightarrow>
      hd (Results ?r) = \<lparr>Check = ''rdma_devices'', Severity = Pass,
           Message = ''All required RDMA devices present (''
                     @ itoa (int (length (RdmaDevices dev))) @ ''): ''
                     @ strings_Join (RdmaDevices dev) '', '',
           Device = PciAddress dev\<rparr>"
  proof
    assume a: "VerifyRdmaDevices (RdmaDevices dev) = None"
    with VerifyRdmaDevices_Nil have "RdmaDevices dev \<noteq> []" by auto
    with a show "hd (Results ?r) = \<lparr>Check = ''rdma_devices'', Severity = Pass,
           Message = ''All required RDMA devices present (''
                     @ itoa (int (length (RdmaDevices dev))) @ ''): ''
                     @ strings_Join (RdmaDevices dev) '', '',
           Device = PciAddress dev\<rparr>"
      by (simp add: hd rdma_devices_result_def)
  qed
  from c1 c2 c3 only show ?thesis by blast
qed

theorem DiagnoseDevice_char_device_check_witness:
  "hd (Results (fst (DiagnoseDevice quiet_host brokenDevice)))
     = \<lparr>Check = ''rdma_devices'', Severity = Fail,
        Message = ''No RDMA character devices found'', Device = ''0000:17:00.2''\<rparr>
   \<and> HasFail (fst (DiagnoseDevice quiet_host brokenDevice))"
  using DiagnoseDevice_char_device_check [of brokenDevice quiet_host]
  by (simp add: brokenDevice_def)

section \<open>Properties of the file system\<close>

lemma map_of_delete: "map_of (delete p fs) q = (if q = p then None else map_of fs q)"
  by (induction fs) (auto simp: delete_def)

lemma lookup_delete:
  "lookup (delete p fs) q
     = (if q = ''/'' \<or> q = ''.'' then Some Directory else if q = p then None else lookup fs q)"
  by (simp add: lookup_def map_of_delete)

lemma IsNotExist_Stat: "IsNotExist (Stat fs p) = (lookup fs p = None)"
  by (simp add: IsNotExist_def Stat_def split: option.split)

lemma Remove_Inr:
  assumes "Remove fs p = Inr fs'"
  shows "fs' = delete p fs" and "lookup fs p \<noteq> None" and "p \<noteq> ''/''" and "p \<noteq> ''.''"
proof -
  have root: "lookup fs ''/'' = Some Directory" "lookup fs ''.'' = Some Directory"
    by (simp_all add: lookup_def)
  from assms show "fs' = delete p fs"
    by (auto simp: Remove_def split: option.splits node.splits if_splits)
  from assms show "lookup fs p \<noteq> None"
    by (auto simp: Remove_def split: option.splits node.splits if_splits)
  from assms root show "p \<noteq> ''/''"
    by (auto simp: Remove_def split: option.splits node.splits if_splits)
  from assms root show "p \<noteq> ''.''"
    by (auto simp: Remove_def split: option.splits node.splits if_splits)
qed

lemma Remove_lookup:
  assumes "Remove fs p = Inr fs'"
  shows "lookup fs' q = (if q = p then None else lookup fs q)"
proof -
  note r = Remove_Inr [OF assms]
  show ?thesis
    unfolding r(1) lookup_delete using r(3,4) by (auto simp: lookup_def)
qed

lemma Remove_Inl: "Remove fs p = Inl e \<Longrightarrow> lookup fs p = None \<or> lookup fs p = Some Directory"
  by (auto simp: Remove_def split: option.splits node.splits if_splits)

section \<open>The removal loop\<close>

lemma cleanup_loop_dry:
  "cleanup_loop fs paths True acc = (acc @ filter (\<lambda>p. lookup fs p \<noteq> None) paths, None, fs)"
  by (induction paths arbitrary: acc) (simp_all add: IsNotExist_Stat del: not_None_eq)

lemma cleanup_loop_real:
  "cleanup_loop fs paths False acc = (removed, err, fs') \<Longrightarrow>
   \<exists>new. removed = acc @ new
     \<and> set new \<subseteq> {p \<in> set paths. lookup fs p \<noteq> None}
     \<and> length new \<le> length paths
     \<and> (\<forall>q. lookup fs' q = (if q \<in> set new then None else lookup fs q))
     \<and> (\<forall>e. err = Some e \<longrightarrow>
          (\<exists>p io. e = CannotRemove p io \<and> p \<in> set paths \<and> lookup fs p \<noteq> None))"
proof (induction paths arbitrary: fs acc)
  case Nil
  then show ?case by simp
next
  case (Cons p paths)
  show ?case
  proof (cases "lookup fs p = None")
    case True
    with Cons.prems have "cleanup_loop fs paths False acc = (removed, err, fs')"
      by (simp add: IsNotExist_Stat del: not_None_eq)
    from Cons.IH [OF this] obtain new where n: "removed = acc @ new"
      "set new \<subseteq> {p \<in> set paths. lookup fs p \<noteq> None}" "length new \<le> length paths"
      "\<forall>q. lookup fs' q = (if q \<in> set new then None else lookup fs q)"
      "\<forall>e. err = Some e \<longrightarrow>
          (\<exists>p io. e = CannotRemove p io \<and> p \<in> set paths \<and> lookup fs p \<noteq> None)"
      by blast
    have "set new \<subseteq> {q \<in> set (p # paths). lookup fs q \<noteq> None}" using n(2) by auto
    moreover have "length new \<le> length (p # paths)" using n(3) by simp
    moreover have "\<forall>e. err = Some e \<longrightarrow>
          (\<exists>q io. e = CannotRemove q io \<and> q \<in> set (p # paths) \<and> lookup fs q \<noteq> None)"
      using n(5) by auto
    ultimately show ?thesis using n(1) n(4) by blast
  next
    case False
    show ?thesis
    proof (cases "Remove fs p")
      case (Inl io)
      with False Cons.prems have r: "removed = acc" "err = Some (CannotRemove p io)" "fs' = fs"
        by (simp_all add: IsNotExist_Stat del: not_None_eq)
      show ?thesis
        by (rule exI [of _ "[]"]) (use r False in simp)
    next
      case (Inr fs1)
      with False Cons.prems have "cleanup_loop fs1 paths False (acc @ [p]) = (removed, err, fs')"
        by (simp add: IsNotExist_Stat del: not_None_eq)
      from Cons.IH [OF this] obtain new where n: "removed = (acc @ [p]) @ new"
        "set new \<subseteq> {p \<in> set paths. lookup fs1 p \<noteq> None}" "length new \<le> length paths"
        "\<forall>q. lookup fs' q = (if q \<in> set new then None else lookup fs1 q)"
        "\<forall>e. err = Some e \<longrightarrow>
            (\<exists>p io. e = CannotRemove p io \<and> p \<in> set paths \<and> lookup fs1 p \<noteq> None)"
        by blast
      note l1 = Remove_lookup [OF Inr]
      have sub: "lookup fs1 q \<noteq> None \<Longrightarrow> lookup fs q \<noteq> None" for q
        by (simp add: l1 split: if_splits)
      have a: "removed = acc @ (p # new)" using n(1) by simp
      have b: "set (p # new) \<subseteq> {q \<in> set (p # paths). lookup fs q \<noteq> None}"
        using n(2) False sub by auto
      have c: "length (p # new) \<le> length (p # paths)" using n(3) by simp
      have d: "\<forall>q. lookup fs' q = (if q \<in> set (p # new) then None else lookup fs q)"
        using n(4) by (simp add: l1)
      have e: "\<forall>e. err = Some e \<longrightarrow>
            (\<exists>q io. e = CannotRemove q io \<and> q \<in> set (p # paths) \<and> lookup fs q \<noteq> None)"
      proof (intro allI impI)
        fix e assume "err = Some e"
        with n(5) obtain q io where "e = CannotRemove q io" "q \<in> set paths" "lookup fs1 q \<noteq> None"
          by blast
        with sub [of q] show "\<exists>q io. e = CannotRemove q io \<and> q \<in> set (p # paths) \<and> lookup fs q \<noteq> None"
          by auto
      qed
      from a b c d e show ?thesis by blast
    qed
  qed
qed


section \<open>Properties of paths\<close>

lemma split_sep_not_Nil [simp]: "split_sep s \<noteq> []"
  by (induction s) (auto split: list.splits)

lemma split_sep_no_sep: "CHR ''/'' \<notin> set c \<Longrightarrow> split_sep c = [c]"
  by (induction c) auto

lemma split_sep_append_sep: "split_sep (s @ CHR ''/'' # t) = split_sep s @ split_sep t"
proof (induction s)
  case Nil
  show ?case by simp
next
  case (Cons c s)
  obtain x xs where x: "split_sep s = x # xs" by (cases "split_sep s") auto
  with Cons show ?case by simp
qed

lemma split_sep_append_no_sep:
  "CHR ''/'' \<notin> set t \<Longrightarrow>
   split_sep (s @ t) = butlast (split_sep s) @ [last (split_sep s) @ t]"
proof (induction s)
  case Nil
  then show ?case by (simp add: split_sep_no_sep)
next
  case (Cons c s)
  obtain x xs where x: "split_sep s = x # xs" by (cases "split_sep s") auto
  show ?case
  proof (cases xs)
    case Nil
    with x Cons show ?thesis by simp
  next
    case (Cons y ys)
    with x Cons.IH [OF Cons.prems] show ?thesis by simp
  qed
qed

lemma strings_Join_snoc:
  "strings_Join (xs @ [c]) sep = (if xs = [] then c else strings_Join xs sep @ sep @ c)"
  by (induction xs sep rule: strings_Join.induct) auto

lemma Clean_last_element:
  assumes "split_sep p = xs @ [c]" and "c \<noteq> []" and "c \<noteq> ''.''" and "c \<noteq> ''..''"
  shows "\<exists>pre. Clean p = pre @ c \<and> (pre = [] \<or> last pre = CHR ''/'')"
proof -
  let ?r = "hd p = CHR ''/''"
  let ?st = "foldl (clean_step ?r) [] xs"
  from assms have ne: "p \<noteq> []" by (cases p) auto
  have st: "foldl (clean_step ?r) [] (split_sep p) = c # ?st"
    using assms by (simp add: clean_step_def)
  let ?J = "strings_Join (rev (c # ?st)) ''/''"
  have body: "?J = (if ?st = [] then c else (strings_Join (rev ?st) ''/'' @ ''/'') @ c)"
    by (simp add: strings_Join_snoc)
  then have Jne: "?J \<noteq> []" using assms(2) by (simp split: if_splits)
  have "Clean p = (if ?r then CHR ''/'' # ?J else if ?J = [] then ''.'' else ?J)"
    using ne by (simp only: Clean_def Let_def st if_False)
  with Jne have cl: "Clean p = (if ?r then ''/'' else []) @ ?J"
    by (simp only: if_False append_Cons append_Nil split: if_split) simp
  show ?thesis
  proof (cases "?st = []")
    case True
    with cl body have "Clean p = (if ?r then ''/'' else []) @ c" by simp
    then show ?thesis by (intro exI [of _ "if ?r then ''/'' else []"]) simp
  next
    case False
    with cl body have "Clean p
        = ((if ?r then ''/'' else []) @ strings_Join (rev ?st) ''/'' @ ''/'') @ c"
      by simp
    then show ?thesis
      by (intro exI [of _ "(if ?r then ''/'' else []) @ strings_Join (rev ?st) ''/'' @ ''/''"])
         simp
  qed
qed

lemma Base_last_element:
  assumes "c \<noteq> []" and "CHR ''/'' \<notin> set c" and "pre = [] \<or> last pre = CHR ''/''"
  shows "Base (pre @ c) = c"
proof -
  from assms(1) obtain x ys where rc: "rev c = x # ys" by (cases "rev c") auto
  with assms(2) have x: "x \<noteq> CHR ''/''" by (metis list.set_intros(1) set_rev)
  have tw: "takeWhile (\<lambda>c. c \<noteq> CHR ''/'') (rev pre) = []"
    using assms(3) by (cases pre rule: rev_cases) auto
  have all: "\<forall>y \<in> set (rev c). y \<noteq> CHR ''/''" using assms(2) by auto
  have "dropWhile (\<lambda>c. c = CHR ''/'') (rev (pre @ c)) = rev c @ rev pre"
    using rc x by simp
  moreover have "takeWhile (\<lambda>c. c \<noteq> CHR ''/'') (rev c @ rev pre)
      = rev c @ takeWhile (\<lambda>c. c \<noteq> CHR ''/'') (rev pre)"
    by (rule takeWhile_append2) (use all in auto)
  ultimately show ?thesis using assms(1) tw by (simp add: Base_def Let_def)
qed

lemma Split_last_element:
  assumes "CHR ''/'' \<notin> set c" and "pre = [] \<or> last pre = CHR ''/''"
  shows "Split (pre @ c) = (pre, c)"
proof -
  have all: "\<forall>y \<in> set (rev c). y \<noteq> CHR ''/''" using assms(1) by auto
  have tw: "takeWhile (\<lambda>c. c \<noteq> CHR ''/'') (rev pre) = []"
    using assms(2) by (cases pre rule: rev_cases) auto
  have dw: "dropWhile (\<lambda>c. c \<noteq> CHR ''/'') (rev pre) = rev pre"
    using assms(2) by (cases pre rule: rev_cases) auto
  have "takeWhile (\<lambda>c. c \<noteq> CHR ''/'') (rev c @ rev pre)
      = rev c @ takeWhile (\<lambda>c. c \<noteq> CHR ''/'') (rev pre)"
    by (rule takeWhile_append2) (use all in auto)
  moreover have "dropWhile (\<lambda>c. c \<noteq> CHR ''/'') (rev c @ rev pre)
      = dropWhile (\<lambda>c. c \<noteq> CHR ''/'') (rev pre)"
    by (rule dropWhile_append2) (use all in auto)
  ultimately show ?thesis using tw dw by (simp add: Split_def)
qed

lemma Ext_last_element:
  assumes "CHR ''/'' \<notin> set e" and "CHR ''.'' \<notin> set e"
  shows "Ext (pre @ CHR ''.'' # e) = CHR ''.'' # e"
proof -
  have a1: "\<forall>y \<in> set (rev e). y \<noteq> CHR ''/''" using assms(1) by auto
  have a2: "\<forall>y \<in> set (rev e). y \<noteq> CHR ''.''" using assms(2) by auto
  let ?t = "takeWhile (\<lambda>c. c \<noteq> CHR ''/'') (rev (pre @ CHR ''.'' # e))"
  have "takeWhile (\<lambda>c. c \<noteq> CHR ''/'') (rev e @ CHR ''.'' # rev pre)
      = rev e @ takeWhile (\<lambda>c. c \<noteq> CHR ''/'') (CHR ''.'' # rev pre)"
    by (rule takeWhile_append2) (use a1 in auto)
  then have t: "?t = rev e @ CHR ''.'' # takeWhile (\<lambda>c. c \<noteq> CHR ''/'') (rev pre)"
    by simp
  let ?u = "CHR ''.'' # takeWhile (\<lambda>c. c \<noteq> CHR ''/'') (rev pre)"
  have "takeWhile (\<lambda>c. c \<noteq> CHR ''.'') (rev e @ ?u)
      = rev e @ takeWhile (\<lambda>c. c \<noteq> CHR ''.'') ?u"
    by (rule takeWhile_append2) (use a2 in auto)
  then have "takeWhile (\<lambda>c. c \<noteq> CHR ''.'') ?t = rev e"
    unfolding t by simp
  moreover have "CHR ''.'' \<in> set ?t" unfolding t by simp
  ultimately show ?thesis by (simp add: Ext_def Let_def)
qed

text \<open>
  Joining a directory with a file name: the last element of the result ends as the file
  name ends, and is the file name when that has no separator.
\<close>

lemma Join_suffix:
  assumes "d \<noteq> []" and "CHR ''/'' \<notin> set t" and "3 \<le> length t"
  shows "\<exists>pre. Join [d, f @ t] = pre @ t"
proof -
  let ?s = "d @ ''/'' @ f"
  let ?c = "last (split_sep ?s) @ t"
  have sp: "split_sep (?s @ t) = butlast (split_sep ?s) @ [?c]"
    by (rule split_sep_append_no_sep [OF assms(2)])
  have c: "?c \<noteq> []" "?c \<noteq> ''.''" "?c \<noteq> ''..''"
    using assms(3) by (auto simp: append_eq_Cons_conv)
  from Clean_last_element [OF sp c] obtain pre where "Clean (?s @ t) = pre @ ?c" by blast
  then have "Join [d, f @ t] = (pre @ last (split_sep ?s)) @ t"
    using assms(1) by simp
  then show ?thesis by blast
qed

lemma Join_Ext:
  assumes "d \<noteq> []" and "CHR ''/'' \<notin> set e" and "CHR ''.'' \<notin> set e" and "2 \<le> length e"
  shows "Ext (Join [d, f @ CHR ''.'' # e]) = CHR ''.'' # e"
proof -
  from Join_suffix [of d "CHR ''.'' # e" f] assms
  obtain pre where "Join [d, f @ CHR ''.'' # e] = pre @ CHR ''.'' # e" by auto
  then show ?thesis by (simp add: Ext_last_element assms)
qed

lemma Join_file_name:
  assumes "d \<noteq> []" and "CHR ''/'' \<notin> set f" and "f \<noteq> []" and "f \<noteq> ''.''" and "f \<noteq> ''..''"
  shows "\<exists>pre. Join [d, f] = pre @ f \<and> (pre = [] \<or> last pre = CHR ''/'')"
proof -
  have sp: "split_sep (d @ CHR ''/'' # f) = split_sep d @ [f]"
    by (simp add: split_sep_append_sep split_sep_no_sep assms(2))
  from Clean_last_element [OF sp assms(3,4,5)] show ?thesis using assms(1) by simp
qed

lemma Join_Base:
  assumes "d \<noteq> []" and "CHR ''/'' \<notin> set f" and "f \<noteq> []" and "f \<noteq> ''.''" and "f \<noteq> ''..''"
  shows "Base (Join [d, f]) = f" and "snd (Split (Join [d, f])) = f"
proof -
  from Join_file_name [OF assms] obtain pre where
    j: "Join [d, f] = pre @ f" and p: "pre = [] \<or> last pre = CHR ''/''" by blast
  show "Base (Join [d, f]) = f" unfolding j by (rule Base_last_element [OF assms(3,2) p])
  show "snd (Split (Join [d, f])) = f" unfolding j by (simp add: Split_last_element [OF assms(2) p])
qed

lemma cleanupFiles_spec:
  assumes "cleanupFiles fs paths dryRun = (removed, err, fs')"
  shows "set removed \<subseteq> {p \<in> set paths. lookup fs p \<noteq> None}
   \<and> length removed \<le> length paths
   \<and> (\<forall>q. lookup fs' q = (if \<not> dryRun \<and> q \<in> set removed then None else lookup fs q))
   \<and> (dryRun \<longrightarrow> fs' = fs \<and> err = None
        \<and> removed = filter (\<lambda>p. lookup fs p \<noteq> None) paths)
   \<and> (\<forall>e. err = Some e \<longrightarrow>
        (\<exists>p io. e = CannotRemove p io \<and> p \<in> set paths \<and> lookup fs p \<noteq> None))"
proof (cases dryRun)
  case True
  with assms have r: "removed = filter (\<lambda>p. lookup fs p \<noteq> None) paths" "err = None" "fs' = fs"
    by (auto simp: cleanupFiles_def cleanup_loop_dry simp del: not_None_eq)
  have "set removed \<subseteq> {p \<in> set paths. lookup fs p \<noteq> None}" unfolding r(1) by auto
  moreover have "length removed \<le> length paths" unfolding r(1) by simp
  ultimately show ?thesis using True r(2,3) r(1) [symmetric] by (intro conjI) simp_all
next
  case False
  with assms have "cleanup_loop fs paths False [] = (removed, err, fs')"
    by (simp add: cleanupFiles_def)
  from cleanup_loop_real [OF this] False show ?thesis by auto
qed


section \<open>Creating directories and spec files\<close>















section \<open>Properties of Glob\<close>

lemma Readdirnames_mem:
  "n \<in> set (Readdirnames fs d) \<Longrightarrow> \<exists>k \<in> fst ` set fs. in_dir d k \<and> Base k = n"
  by (auto simp: Readdirnames_def)

lemma Readdirnames_distinct: "distinct (Readdirnames fs d)"
  by (simp add: Readdirnames_def)

lemma glob_names_spec:
  "glob_names dir pat names m = (m', None) \<Longrightarrow>
   m' = m @ map (\<lambda>n. Join [dir, n]) (filter (\<lambda>n. Match pat n = Inr True) names)"
proof (induction names arbitrary: m)
  case Nil
  then show ?case by simp
next
  case (Cons n names)
  show ?case
  proof (cases "Match pat n")
    case (Inl e)
    with Cons.prems show ?thesis by simp
  next
    case (Inr b)
    with Cons.prems have
      "glob_names dir pat names (if b then m @ [Join [dir, n]] else m) = (m', None)"
      by simp
    from Cons.IH [OF this] Inr show ?thesis by (cases b) simp_all
  qed
qed

lemma glob_spec:
  assumes "glob fs d file m = (m', None)"
  shows "\<exists>r. m' = m @ r \<and> distinct r \<and> (\<forall>k \<in> set r. hit fs file k \<and> Dir k = d)"
proof (cases "Stat fs d = Inr Directory")
  case False
  with assms have "m' = m"
    by (auto simp: glob_def split: sum.splits node.splits)
  then show ?thesis by simp
next
  case True
  let ?names = "filter (\<lambda>n. Match file n = Inr True) (Readdirnames fs d)"
  let ?r = "map (\<lambda>n. Join [d, n]) ?names"
  from True assms have "glob_names d file (Readdirnames fs d) m = (m', None)"
    by (simp add: glob_def)
  from glob_names_spec [OF this] have m': "m' = m @ ?r" .
  have key: "\<exists>k \<in> fst ` set fs. in_dir d k \<and> Base k = n \<and> Join [d, n] = k"
    if "n \<in> set ?names" for n
  proof -
    from that have "n \<in> set (Readdirnames fs d)" by simp
    from Readdirnames_mem [OF this] obtain k where
      k: "k \<in> fst ` set fs" "in_dir d k" "Base k = n" by blast
    from k(2,3) have "Join [d, n] = k" by (simp add: in_dir_def del: Join.simps)
    with k show ?thesis by blast
  qed
  have inj: "inj_on (\<lambda>n. Join [d, n]) (set ?names)"
  proof (rule inj_onI)
    fix a b assume a: "a \<in> set ?names" and b: "b \<in> set ?names"
      and eq: "Join [d, a] = Join [d, b]"
    from key [OF a] key [OF b] eq show "a = b" by (auto simp del: Join.simps)
  qed
  have "distinct ?names" by (simp add: Readdirnames_distinct)
  with inj have d: "distinct ?r" by (simp add: distinct_map del: Join.simps)
  have h: "\<forall>k \<in> set ?r. hit fs file k \<and> Dir k = d"
  proof
    fix k assume "k \<in> set ?r"
    then obtain n where n: "n \<in> set ?names" "k = Join [d, n]"
      by (auto simp del: Join.simps)
    from key [OF n(1)] n(2) have "k \<in> fst ` set fs" "in_dir d k" "Base k = n"
      by (auto simp del: Join.simps)
    moreover from n(1) have "Match file n = Inr True" by simp
    ultimately show "hit fs file k \<and> Dir k = d"
      by (simp add: hit_def in_dir_def del: Join.simps)
  qed
  from m' d h show ?thesis by blast
qed

lemma glob_dirs_spec:
  "glob_dirs fs file ds m = (m', None) \<Longrightarrow> distinct ds \<Longrightarrow>
   \<exists>r. m' = m @ r \<and> distinct r \<and> (\<forall>k \<in> set r. hit fs file k \<and> Dir k \<in> set ds)"
proof (induction ds arbitrary: m)
  case Nil
  then show ?case by simp
next
  case (Cons d ds)
  obtain m1 e1 where g: "glob fs d file m = (m1, e1)" by (cases "glob fs d file m")
  with Cons.prems(1) have e1: "e1 = None" and rest: "glob_dirs fs file ds m1 = (m', None)"
    by (cases e1; simp)+
  from glob_spec [OF g [unfolded e1]] obtain r1 where
    r1: "m1 = m @ r1" "distinct r1" "\<forall>k \<in> set r1. hit fs file k \<and> Dir k = d" by blast
  from Cons.prems(2) have dd: "distinct ds" "d \<notin> set ds" by simp_all
  from Cons.IH [OF rest dd(1)] obtain r2 where
    r2: "m' = m1 @ r2" "distinct r2" "\<forall>k \<in> set r2. hit fs file k \<and> Dir k \<in> set ds" by blast
  have disj: "set r1 \<inter> set r2 = {}" using r1(3) r2(3) dd(2) by auto
  have "m' = m @ (r1 @ r2)" using r1(1) r2(1) by simp
  moreover have "distinct (r1 @ r2)" using r1(2) r2(2) disj by simp
  moreover have "\<forall>k \<in> set (r1 @ r2). hit fs file k \<and> Dir k \<in> set (d # ds)"
    using r1(3) r2(3) by auto
  ultimately show ?case by blast
qed

lemma globWithLimit_spec:
  "hasMeta pattern \<Longrightarrow> globWithLimit fs pattern depth = (m, None) \<Longrightarrow>
   distinct m \<and> (\<forall>k \<in> set m. hit fs (snd (Split pattern)) k)"
proof (induction fs pattern depth arbitrary: m rule: globWithLimit.induct)
  case (1 fs pattern depth)
  let ?dir = "cleanGlobPath (fst (Split pattern))"
  let ?file = "snd (Split pattern)"
  note eq = "1.prems"(2) [unfolded globWithLimit.simps [of fs pattern depth]]
  from eq have c1: "depth \<noteq> 10000" and c2: "parse_pattern pattern \<noteq> None"
    by (auto split: if_splits)
  note c3 = "1.prems"(1)
  show ?case
  proof (cases "hasMeta ?dir")
    case False
    with eq c1 c2 c3 have "glob fs ?dir ?file [] = (m, None)" by simp
    from glob_spec [OF this] show ?thesis by auto
  next
    case True
    with eq c1 c2 c3 have c5: "?dir \<noteq> pattern" by (auto split: if_splits)
    obtain m0 e0 where rec: "globWithLimit fs ?dir (depth + 1) = (m0, e0)"
      by (cases "globWithLimit fs ?dir (depth + 1)")
    with eq c1 c2 c3 True c5 have e0: "e0 = None" and gd: "glob_dirs fs ?file m0 [] = (m, None)"
      by (cases e0; simp)+
    have c3': "\<not> \<not> hasMeta pattern" using c3 by simp
    have c4': "\<not> \<not> hasMeta ?dir" using True by simp
    from "1.IH" [OF c1 _ c3' c4' c5 True rec [unfolded e0]] c2
    have "distinct m0" by simp
    from glob_dirs_spec [OF gd this] show ?thesis by auto
  qed
qed

section \<open>Properties of patterns\<close>

lemma parse_pattern_plain:
  "list_all plain s \<Longrightarrow> parse_pattern (s @ r) = map_option ((@) (map Lit s)) (parse_pattern r)"
proof (induction s)
  case Nil
  show ?case by (simp add: option.map_ident)
next
  case (Cons c s)
  then have "plain c" and ih: "parse_pattern (s @ r) = map_option ((@) (map Lit s)) (parse_pattern r)"
    by simp_all
  then show ?case by (simp add: plain_def option.map_comp comp_def)
qed

lemma parse_pattern_plain_only: "list_all plain s \<Longrightarrow> parse_pattern s = Some (map Lit s)"
  using parse_pattern_plain [of s "[]"] by simp

lemma tokens_match_lits:
  "tokens_match (map Lit l @ ts) n = (prefix l n \<and> tokens_match ts (drop (length l) n))"
proof (induction l arbitrary: n)
  case Nil
  show ?case by simp
next
  case (Cons x l)
  show ?case by (cases n) (auto simp: Cons.IH)
qed

lemma tokens_match_lits_only: "tokens_match (map Lit l) n = (n = l)"
proof (induction l arbitrary: n)
  case Nil
  show ?case by simp
next
  case (Cons x l)
  show ?case by (cases n) (auto simp: Cons.IH)
qed

lemma tokens_match_star_suffix:
  "tokens_match (Star # map Lit s) n \<Longrightarrow> suffix s n"
proof (induction n)
  case Nil
  then show ?case by (simp add: tokens_match_lits_only)
next
  case (Cons c cs)
  then show ?case by (auto simp: tokens_match_lits_only suffix_Cons)
qed

lemma tokens_match_suffix:
  "tokens_match (ts @ Star # map Lit s) n \<Longrightarrow> suffix s n"
proof (induction "ts @ Star # map Lit s" n arbitrary: ts rule: tokens_match.induct)
  case (1 n)
  then show ?case by simp
next
  case (2 ts' )
  show ?case
  proof (cases ts)
    case Nil
    with 2 show ?thesis using tokens_match_star_suffix [of s "[]"] by simp
  next
    case (Cons t ts'')
    with 2 show ?thesis by auto
  qed
next
  case (3 ts' c cs)
  show ?case
  proof (cases ts)
    case Nil
    with 3 show ?thesis using tokens_match_star_suffix [of s "c # cs"] by simp
  next
    case (Cons t ts'')
    with "3.hyps"(3) have t: "t = Star" "ts' = ts'' @ Star # map Lit s" by simp_all
    from "3.prems" Cons t consider "tokens_match (ts'' @ Star # map Lit s) (c # cs)"
      | "tokens_match (Star # ts'' @ Star # map Lit s) cs"
      by auto
    then show ?thesis
    proof cases
      case 1
      from "3.hyps"(1) [OF t(2) 1] show ?thesis .
    next
      case 2
      have "Star # ts' = (Star # ts'') @ Star # map Lit s" using t by simp
      from "3.hyps"(2) [OF this] 2 t have "suffix s cs" by simp
      then show ?thesis by (simp add: suffix_Cons)
    qed
  qed
next
  case (4 ts')
  then show ?case by (cases ts) auto
next
  case (5 ts' c cs)
  then show ?case by (cases ts) (auto simp: suffix_Cons)
next
  case (6 negated rs ts')
  then show ?case by (cases ts) auto
next
  case (7 negated rs ts' c cs)
  then show ?case by (cases ts) (auto simp: suffix_Cons)
next
  case (8 x ts')
  then show ?case by (cases ts) auto
next
  case (9 x ts' c cs)
  then show ?case by (cases ts) (auto simp: suffix_Cons)
qed

lemma getEsc_rest_set: "getEsc chunk = Some (c, r) \<Longrightarrow> set r \<subseteq> set chunk"
  by (cases chunk) (auto split: if_splits list.splits)

lemma parse_ranges_no_close: "CHR '']'' \<notin> set chunk \<Longrightarrow> parse_ranges started chunk = None"
proof (induction started chunk rule: parse_ranges.induct)
  case (1 started chunk)
  have nc: "\<not> (started \<and> chunk \<noteq> [] \<and> hd chunk = CHR '']'')"
    using "1.prems" by (cases chunk) auto
  show ?case
  proof (cases "getEsc chunk")
    case None
    with nc show ?thesis by (subst parse_ranges.simps) auto
  next
    case (Some a)
    obtain lo c1 where a: "a = (lo, c1)" by (cases a)
    with Some have e1: "getEsc chunk = Some (lo, c1)" by simp
    from getEsc_rest_set [OF e1] "1.prems" have n1: "CHR '']'' \<notin> set c1" by auto
    show ?thesis
    proof (cases "c1 \<noteq> [] \<and> hd c1 = CHR ''-''")
      case True
      show ?thesis
      proof (cases "getEsc (tl c1)")
        case None
        with nc e1 True show ?thesis by (subst parse_ranges.simps) auto
      next
        case (Some b)
        obtain hi c2 where b: "b = (hi, c2)" by (cases b)
        with Some have e2: "getEsc (tl c1) = Some (hi, c2)" by simp
        from getEsc_rest_set [OF e2] n1 True have "CHR '']'' \<notin> set c2"
          by (cases c1) auto
        from "1.IH"(1) [OF nc e1 refl True e2 refl this]
        show ?thesis using nc e1 True e2 by (subst parse_ranges.simps) auto
      qed
    next
      case False
      from "1.IH"(2) [OF nc e1 refl False n1]
      show ?thesis using nc e1 False by (subst parse_ranges.simps) auto
    qed
  qed
qed

lemma getEsc_append:
  assumes "getEsc (r @ T) = Some (lo, c1)"
  shows "(\<exists>r1. c1 = r1 @ T \<and> length r1 < length r) \<or> set c1 \<subseteq> set T"
proof (cases r)
  case Nil
  with assms getEsc_rest_set show ?thesis by auto
next
  case (Cons x r')
  show ?thesis
  proof (cases "x = CHR 0x5C")
    case False
    with assms Cons have "c1 = r' @ T" by (auto split: if_splits)
    with Cons show ?thesis by simp
  next
    case True
    show ?thesis
    proof (cases r')
      case Nil
      with assms Cons True have "c1 = tl T" by (auto split: if_splits list.splits)
      then have "set c1 \<subseteq> set T" by (cases T) auto
      then show ?thesis by simp
    next
      case (Cons d r'')
      with assms \<open>r = x # r'\<close> True have "c1 = r'' @ T" by (auto split: if_splits)
      with Cons \<open>r = x # r'\<close> show ?thesis by simp
    qed
  qed
qed

lemma parse_ranges_append:
  "parse_ranges started chunk = Some (rs, rest) \<Longrightarrow> chunk = r @ T \<Longrightarrow>
   CHR '']'' \<notin> set T \<Longrightarrow>
   \<exists>rest'. rest = rest' @ T \<and> length rest' < length r"
proof (induction started chunk arbitrary: rs rest r rule: parse_ranges.induct)
  case (1 started chunk)
  note eq = "1.prems"(1) [unfolded parse_ranges.simps [of started chunk]]
  note T = "1.prems"(3)
  show ?case
  proof (cases "started \<and> chunk \<noteq> [] \<and> hd chunk = CHR '']''")
    case True
    with eq have rest: "rest = tl chunk" by simp
    from True "1.prems"(2) T obtain r' where "r = CHR '']'' # r'"
      by (cases r) (auto dest: hd_in_set)
    with rest "1.prems"(2) show ?thesis by simp
  next
    case False
    with eq obtain lo c1 where e1: "getEsc chunk = Some (lo, c1)"
      by (auto split: option.splits)
    from getEsc_append [OF e1 [unfolded "1.prems"(2)]]
    consider r1 where "c1 = r1 @ T" "length r1 < length r" | "set c1 \<subseteq> set T" by blast
    then show ?thesis
    proof cases
      case 2
      with T have n1: "CHR '']'' \<notin> set c1" by auto
      have "parse_ranges started chunk = None"
      proof (cases "c1 \<noteq> [] \<and> hd c1 = CHR ''-''")
        case True
        show ?thesis
        proof (cases "getEsc (tl c1)")
          case None
          with False e1 True show ?thesis by (subst parse_ranges.simps) auto
        next
          case (Some b)
          obtain hi c2 where "b = (hi, c2)" by (cases b)
          with Some have e2: "getEsc (tl c1) = Some (hi, c2)" by simp
          from getEsc_rest_set [OF e2] n1 True have "CHR '']'' \<notin> set c2" by (cases c1) auto
          then have "parse_ranges True c2 = None" by (rule parse_ranges_no_close)
          with False e1 True e2 show ?thesis by (subst parse_ranges.simps) auto
        qed
      next
        case F: False
        from n1 have "parse_ranges True c1 = None" by (rule parse_ranges_no_close)
        with False e1 F show ?thesis by (subst parse_ranges.simps) auto
      qed
      with "1.prems"(1) show ?thesis by simp
    next
      case 1
      note c1 = this
      show ?thesis
      proof (cases "c1 \<noteq> [] \<and> hd c1 = CHR ''-''")
        case F: False
        with False e1 eq obtain rs' where p: "parse_ranges True c1 = Some (rs', rest)"
          by (auto split: option.splits)
        from "1.IH"(2) [OF False e1 refl F p c1(1) T] c1(2) show ?thesis by auto
      next
        case True
        with False e1 eq obtain hi c2 rs' where
          e2: "getEsc (tl c1) = Some (hi, c2)" and p: "parse_ranges True c2 = Some (rs', rest)"
          by (auto split: option.splits)
        show ?thesis
        proof (cases r1)
          case Nil
          with c1(1) have "tl c1 = tl T" by simp
          with getEsc_rest_set [OF e2] have "set c2 \<subseteq> set T" by (cases T) auto
          with T have "CHR '']'' \<notin> set c2" by auto
          then have "parse_ranges True c2 = None" by (rule parse_ranges_no_close)
          with p show ?thesis by simp
        next
          case (Cons y r1')
          with c1(1) have tl: "tl c1 = r1' @ T" by simp
          from getEsc_append [OF e2 [unfolded tl]]
          consider r2 where "c2 = r2 @ T" "length r2 < length r1'" | "set c2 \<subseteq> set T" by blast
          then show ?thesis
          proof cases
            case 2
            with T have "CHR '']'' \<notin> set c2" by auto
            then have "parse_ranges True c2 = None" by (rule parse_ranges_no_close)
            with p show ?thesis by simp
          next
            case 1
            from "1.IH"(1) [OF False e1 refl True e2 refl p 1(1) T] 1(2) Cons c1(2)
            show ?thesis by auto
          qed
        qed
      qed
    qed
  qed
qed

lemma parse_pattern_star_tail:
  assumes S: "list_all plain S" "CHR '']'' \<notin> set S"
  shows "parse_pattern (A @ CHR ''_'' # CHR ''*'' # S) = Some ts \<Longrightarrow>
         \<exists>ts'. ts = ts' @ Star # map Lit S"
proof (induction A arbitrary: ts rule: length_induct)
  case (1 A)
  let ?T = "CHR ''_'' # CHR ''*'' # S"
  have T: "CHR '']'' \<notin> set ?T" using S(2) by simp
  have pS: "parse_pattern S = Some (map Lit S)" by (rule parse_pattern_plain_only [OF S(1)])
  have base: "parse_pattern ?T = Some ([Lit CHR ''_''] @ Star # map Lit S)"
    by (simp add: pS)
  have star: "parse_pattern (CHR ''*'' # S) = Some (Star # map Lit S)"
    by (simp add: pS)
  note IH = "1.IH" [rule_format]
  show ?case
  proof (cases A)
    case Nil
    with "1.prems" base show ?thesis by auto
  next
    case (Cons c A')
    note A = this
    have lenA': "length A' < length A" using A by simp
    have step: "\<exists>ts'. ts = ts' @ Star # map Lit S"
      if "parse_pattern (B @ ?T) = Some ts0" "ts = t # ts0" "length B < length A" for B ts0 t
    proof -
      from IH [OF that(3) that(1)] obtain ts1 where "ts0 = ts1 @ Star # map Lit S" by blast
      with that(2) have "ts = (t # ts1) @ Star # map Lit S" by simp
      then show ?thesis by blast
    qed
    consider (star) "c = CHR ''*''" | (any) "c = CHR ''?''" | (cls) "c = CHR ''[''"
      | (esc) "c = CHR 0x5C" | (lit) "plain c"
      by (auto simp: plain_def)
    then show ?thesis
    proof cases
      case star
      with "1.prems" A obtain ts0 where "parse_pattern (A' @ ?T) = Some ts0" "ts = Star # ts0"
        by auto
      from step [OF this lenA'] show ?thesis .
    next
      case any
      with "1.prems" A obtain ts0 where "parse_pattern (A' @ ?T) = Some ts0" "ts = AnyChar # ts0"
        by auto
      from step [OF this lenA'] show ?thesis .
    next
      case lit
      with "1.prems" A obtain ts0 where "parse_pattern (A' @ ?T) = Some ts0" "ts = Lit c # ts0"
        by (auto simp: plain_def)
      from step [OF this lenA'] show ?thesis .
    next
      case esc
      show ?thesis
      proof (cases A')
        case Nil
        with "1.prems" A esc star have "ts = [Lit CHR ''_''] @ Star # map Lit S" by simp
        then show ?thesis by blast
      next
        case (Cons d A'')
        with "1.prems" A esc obtain ts0 where
          "parse_pattern (A'' @ ?T) = Some ts0" "ts = Lit d # ts0"
          by auto
        moreover have "length A'' < length A" using A Cons by simp
        ultimately show ?thesis by (rule step)
      qed
    next
      case cls
      let ?r = "A' @ ?T"
      let ?neg = "?r \<noteq> [] \<and> hd ?r = CHR ''^''"
      let ?r1 = "if ?neg then tl ?r else ?r"
      obtain A1 where A1: "?r1 = A1 @ ?T" "length A1 \<le> length A'"
      proof (cases A')
        case Nil
        then have "?r1 = [] @ ?T" by simp
        with Nil that show ?thesis by simp
      next
        case (Cons d A'')
        then have "?r1 = (if d = CHR ''^'' then A'' else A') @ ?T" by simp
        with Cons that show ?thesis by simp
      qed
      from "1.prems" A cls obtain rs r2 ts0 where
        pr: "parse_ranges False ?r1 = Some (rs, r2)" and
        p2: "parse_pattern r2 = Some ts0" and ts: "ts = Class ?neg rs # ts0"
        by (auto simp: Let_def split: option.splits)
      from parse_ranges_append [OF pr A1(1) T] obtain rest' where
        r2: "r2 = rest' @ ?T" "length rest' < length A1" by blast
      have "length rest' < length A" using r2(2) A1(2) A by simp
      from step [OF p2 [unfolded r2(1)] ts this] show ?thesis .
    qed
  qed
qed

section \<open>The candidates of a cleanup\<close>

lemma ReplaceAll_no_sep: "CHR ''/'' \<notin> set (ReplaceAll pfx ''/'' ''_'')"
  by (auto simp: ReplaceAll_single)

lemma Clean_not_Nil: "Clean p \<noteq> []"
  by (simp add: Clean_def Let_def)

lemma Base_no_sep: "Base p \<noteq> ''/'' \<Longrightarrow> CHR ''/'' \<notin> set (Base p)"
proof -
  assume a: "Base p \<noteq> ''/''"
  let ?e = "takeWhile (\<lambda>c. c \<noteq> CHR ''/'') (dropWhile (\<lambda>c. c = CHR ''/'') (rev p))"
  have "CHR ''/'' \<notin> set ?e" by (auto dest: set_takeWhileD)
  with a show ?thesis by (auto simp: Base_def Let_def split: if_splits)
qed

text \<open>The pattern that \<^verbatim>\<open>CleanupSpecs\<close> hands to \<^verbatim>\<open>Glob\<close> for one extension.\<close>

lemma glob_pattern_parts:
  assumes d: "d \<noteq> []" and sp: "CHR ''/'' \<notin> set sp" and ext: "CHR ''/'' \<notin> set ext"
  defines "F \<equiv> FilePrefix @ ''_'' @ sp @ ''_*.'' @ ext"
  shows "snd (Split (Join [d, F])) = F" and "hasMeta (Join [d, F])"
proof -
  have F1: "CHR ''/'' \<notin> set F" using sp ext by (simp add: F_def FilePrefix_def)
  have F2: "F \<noteq> []" "F \<noteq> ''.''" "F \<noteq> ''..''" by (simp_all add: F_def FilePrefix_def)
  from Join_Base(2) [OF d F1 F2] show "snd (Split (Join [d, F])) = F" .
  from Join_file_name [OF d F1 F2] obtain pre where "Join [d, F] = pre @ F" by blast
  moreover have "CHR ''*'' \<in> set F" by (simp add: F_def)
  ultimately show "hasMeta (Join [d, F])" by (auto simp: hasMeta_def list_ex_iff)
qed

lemma hit_base_name:
  assumes ext: "list_all plain ext" "CHR '']'' \<notin> set ext"
    and h: "Match (FilePrefix @ ''_'' @ sp @ ''_*.'' @ ext) n = Inr True"
  shows "prefix (FilePrefix @ ''_'') n" and "suffix (CHR ''.'' # ext) n"
proof -
  let ?F = "FilePrefix @ ''_'' @ sp @ ''_*.'' @ ext"
  from h obtain ts where p: "parse_pattern ?F = Some ts" and m: "tokens_match ts n"
    by (auto simp: Match_def split: option.splits)
  have pl: "list_all plain (FilePrefix @ ''_'')" by (simp add: plain_def FilePrefix_def)
  define R where "R = sp @ ''_*.'' @ ext"
  have F: "?F = (FilePrefix @ ''_'') @ R" by (simp add: R_def)
  from p have "map_option ((@) (map Lit (FilePrefix @ ''_''))) (parse_pattern R) = Some ts"
    unfolding F parse_pattern_plain [OF pl] .
  then obtain ts1 where "ts = map Lit (FilePrefix @ ''_'') @ ts1"
    by (cases "parse_pattern R") auto
  with m show "prefix (FilePrefix @ ''_'') n" by (simp only: tokens_match_lits)
  have S: "list_all plain (CHR ''.'' # ext)" "CHR '']'' \<notin> set (CHR ''.'' # ext)"
    using ext by (simp_all add: plain_def)
  have F2: "?F = (FilePrefix @ ''_'' @ sp) @ CHR ''_'' # CHR ''*'' # (CHR ''.'' # ext)" by simp
  from parse_pattern_star_tail [OF S p [unfolded F2]]
  obtain ts2 where "ts = ts2 @ Star # map Lit (CHR ''.'' # ext)" by blast
  with m have "tokens_match (ts2 @ Star # map Lit (CHR ''.'' # ext)) n" by (simp only:)
  then show "suffix (CHR ''.'' # ext) n" by (rule tokens_match_suffix)
qed

lemma Glob_one_ext:
  assumes d: "d \<noteq> []" and sp: "CHR ''/'' \<notin> set sp"
    and ext: "list_all plain ext" "CHR '']'' \<notin> set ext" "CHR ''/'' \<notin> set ext"
      "CHR ''.'' \<notin> set ext" "2 \<le> length ext"
    and g: "Glob fs (Join [d, FilePrefix @ ''_'' @ sp @ ''_*.'' @ ext]) = (m, None)"
  shows "distinct m"
    and "\<forall>k \<in> set m. prefix (FilePrefix @ ''_'') (Base k) \<and> suffix (CHR ''.'' # ext) (Base k)
           \<and> Ext k = CHR ''.'' # ext"
proof -
  let ?F = "FilePrefix @ ''_'' @ sp @ ''_*.'' @ ext"
  note parts = glob_pattern_parts [OF d sp ext(3)]
  from g have "globWithLimit fs (Join [d, ?F]) 0 = (m, None)" by (simp only: Glob_def)
  note gs = globWithLimit_spec [OF parts(2) this, unfolded parts(1)]
  from gs have dm: "distinct m" by (rule conjunct1)
  from gs have hits: "\<forall>k \<in> set m. hit fs ?F k" by (rule conjunct2)
  show "distinct m" by (rule dm)
  show "\<forall>k \<in> set m. prefix (FilePrefix @ ''_'') (Base k) \<and> suffix (CHR ''.'' # ext) (Base k)
           \<and> Ext k = CHR ''.'' # ext"
  proof
    fix k assume "k \<in> set m"
    with hits have h: "in_dir (Dir k) k" "Match ?F (Base k) = Inr True" by (simp_all add: hit_def)
    note bn = hit_base_name [OF ext(1,2) h(2)]
    from bn(2) obtain n0 where n0: "Base k = n0 @ CHR ''.'' # ext" by (auto simp: suffix_def)
    from h(1) have j: "Join [Dir k, Base k] = k" and ns: "Base k \<noteq> ''/''"
      by (simp_all add: in_dir_def del: Join.simps)
    have "Dir k \<noteq> []" by (simp add: Dir_def Clean_not_Nil)
    from Join_Ext [OF this ext(3,4,5), of n0] have "Ext k = CHR ''.'' # ext"
      by (simp only: n0 [symmetric] j)
    with bn show "prefix (FilePrefix @ ''_'') (Base k) \<and> suffix (CHR ''.'' # ext) (Base k)
           \<and> Ext k = CHR ''.'' # ext" by simp
  qed
qed

lemma CleanupSpecs_candidates:
  "CleanupSpecs fs dir0 pfx name dryRun =
     (case candidates fs dir0 pfx name of
        Inl e \<Rightarrow> ([], Some e, fs)
      | Inr paths \<Rightarrow> cleanupFiles fs paths dryRun)"
  by (simp add: CleanupSpecs_def candidates_def SpecFileName_def Let_def del: Join.simps)


lemma candidates_own:
  assumes "candidates fs dir0 pfx name = Inr paths" and "CHR ''/'' \<notin> set name"
  shows "\<forall>k \<in> set paths. own_spec_path k"
proof -
  let ?d = "if dir0 = [] then DefaultOutputDir else dir0"
  let ?sp = "ReplaceAll pfx ''/'' ''_''"
  have d: "?d \<noteq> []" by (simp add: DefaultOutputDir_def)
  show ?thesis
  proof (cases "name = []")
    case False
    let ?f = "FilePrefix @ ''_'' @ ?sp @ ''_'' @ name"
    have own: "own_spec_path (Join [?d, ?f @ CHR ''.'' # ext])"
      if e: "ext = ''json'' \<or> ext = ''yaml''" for ext
    proof -
      have x: "Ext (Join [?d, ?f @ CHR ''.'' # ext]) = CHR ''.'' # ext"
        using e by (intro Join_Ext [OF d]) auto
      have ns: "CHR ''/'' \<notin> set (?f @ CHR ''.'' # ext)"
        using assms(2) ReplaceAll_no_sep [of pfx] e by (auto simp: FilePrefix_def)
      have ne: "?f @ CHR ''.'' # ext \<noteq> []" "?f @ CHR ''.'' # ext \<noteq> ''.''"
          "?f @ CHR ''.'' # ext \<noteq> ''..''"
        by (simp_all add: FilePrefix_def)
      from Join_Base(1) [OF d ns ne] have "Base (Join [?d, ?f @ CHR ''.'' # ext]) = ?f @ CHR ''.'' # ext" .
      then have "prefix (FilePrefix @ ''_'') (Base (Join [?d, ?f @ CHR ''.'' # ext]))"
        by (simp only:) simp
      with x e show ?thesis by (auto simp: own_spec_path_def simp del: Join.simps)
    qed
    from False assms have "paths = [Join [?d, ?f @ CHR ''.'' # ''json''],
        Join [?d, ?f @ CHR ''.'' # ''yaml'']]"
      by (simp add: candidates_def SpecFileName_def Let_def del: Join.simps)
    with own [of "''json''"] own [of "''yaml''"] show ?thesis by (simp del: Join.simps)
  next
    case True
    let ?P = "\<lambda>ext. Join [?d, FilePrefix @ ''_'' @ ?sp @ ''_*.'' @ ext]"
    from True assms have ge: "glob_exts fs ?d ?sp [''json'', ''yaml''] [] = Inr paths"
      by (simp add: candidates_def Let_def del: Join.simps glob_exts.simps)
    obtain mj ej where gj: "Glob fs (?P ''json'') = (mj, ej)" by (cases "Glob fs (?P ''json'')")
    obtain my ey where gy: "Glob fs (?P ''yaml'') = (my, ey)" by (cases "Glob fs (?P ''yaml'')")
    from ge gj have ej: "ej = None"
      by (cases ej) (simp_all add: Let_def del: Join.simps)
    from ge gj gy ej have ey: "ey = None"
      by (cases ey) (simp_all add: Let_def del: Join.simps)
    from ge gj gy ej ey have p: "paths = mj @ my"
      by (simp add: Let_def del: Join.simps)
    note sj = Glob_one_ext [OF d ReplaceAll_no_sep _ _ _ _ _ gj [unfolded ej]]
    note sy = Glob_one_ext [OF d ReplaceAll_no_sep _ _ _ _ _ gy [unfolded ey]]
    have pj: "list_all plain ''json''" "list_all plain ''yaml''" by (simp_all add: plain_def)
    have "\<forall>k \<in> set mj. own_spec_path k" using sj(2) by (simp add: plain_def own_spec_path_def)
    moreover have "\<forall>k \<in> set my. own_spec_path k" using sy(2) by (simp add: plain_def own_spec_path_def)
    ultimately show ?thesis using p by auto
  qed
qed

section \<open>Cleanup\<close>










text \<open>
  The cleanup keeps to the tool's own files when the name has no separator (the empty
  name included): \<^verbatim>\<open>CleanupSpecs\<close> then returns only paths whose base name begins with the tool's prefix and
  an underscore and whose extension is \<^verbatim>\<open>.json\<close> or \<^verbatim>\<open>.yaml\<close>, and it leaves every
  other path as it was.
\<close>

lemma CleanupSpecs_own_files_only:
  assumes "CHR ''/'' \<notin> set name"
    and "CleanupSpecs fs dir pfx name dryRun = (removed, err, fs')"
  shows "(\<forall>k \<in> set removed. own_spec_path k)
    \<and> (\<forall>q. \<not> own_spec_path q \<longrightarrow> lookup fs' q = lookup fs q)"
proof (cases "candidates fs dir pfx name")
  case (Inl e)
  with assms(2) show ?thesis by (simp add: CleanupSpecs_candidates)
next
  case (Inr paths)
  with assms(2) have r: "cleanupFiles fs paths dryRun = (removed, err, fs')"
    by (simp add: CleanupSpecs_candidates)
  note sp = cleanupFiles_spec [OF r]
  note own = candidates_own [OF Inr assms(1)]
  from sp own have a: "\<forall>k \<in> set removed. own_spec_path k" by blast
  with sp have "\<forall>q. \<not> own_spec_path q \<longrightarrow> lookup fs' q = lookup fs q" by auto
  with a show ?thesis by simp
qed

text \<open>
  Claim C1. \<^verbatim>\<open>CleanupSpecs\<close> should never remove a file whose base name does not begin
  with \<^verbatim>\<open>rdma-cdi_\<close>. The code does: the name is put into the candidate paths as it
  is, and \<^verbatim>\<open>filepath.Join\<close> cleans the path, so a name with separators and \<^verbatim>\<open>..\<close>
  reaches another tool's file. In the directory of the cleanup tests, the name
  \<^verbatim>\<open>x/../other-tool\<close> removes \<^verbatim>\<open>other-tool.json\<close>.
\<close>

theorem CleanupSpecs_removes_other_tools_file:
  "CleanupSpecs seeded_dir ''/etc/cdi'' ''rdma'' ''x/../other-tool'' False
     = ([''/etc/cdi/other-tool.json''], None, delete ''/etc/cdi/other-tool.json'' seeded_dir)
   \<and> lookup seeded_dir ''/etc/cdi/other-tool.json'' = Some (File ''test'')
   \<and> lookup (snd (snd (CleanupSpecs seeded_dir ''/etc/cdi'' ''rdma'' ''x/../other-tool'' False)))
        ''/etc/cdi/other-tool.json'' = None
   \<and> Base ''/etc/cdi/other-tool.json'' = ''other-tool.json''
   \<and> \<not> prefix (FilePrefix @ ''_'') (Base ''/etc/cdi/other-tool.json'')"
  by code_simp

end
